theory Spec2Isabelle
  imports Complex_Main "HOL-Library.AList"
begin

section \<open>Strings\<close>

text \<open>
  The methods of \<^verbatim>\<open>str\<close> the module calls. \<open>is_space\<close> is \<^verbatim>\<open>str.isspace\<close> on one
  character (also the class \<^verbatim>\<open>\s\<close> of \<^verbatim>\<open>re\<close>), \<open>is_word\<close> the class \<^verbatim>\<open>\w\<close>,
  \<open>is_digit\<close> the class \<^verbatim>\<open>\d\<close>, each on the code points 0..255.
\<close>

definition is_space :: "char \<Rightarrow> bool" where
  "is_space c \<longleftrightarrow> c \<in> set [CHR 0x09, CHR 0x0A, CHR 0x0B, CHR 0x0C, CHR 0x0D,
     CHR 0x1C, CHR 0x1D, CHR 0x1E, CHR 0x1F, CHR 0x20, CHR 0x85, CHR 0xA0]"

definition is_digit :: "char \<Rightarrow> bool" where
  "is_digit c \<longleftrightarrow> (48::nat) \<le> of_char c \<and> of_char c \<le> (57::nat)"

definition is_word :: "char \<Rightarrow> bool" where
  "is_word c \<longleftrightarrow>
     (let n = (of_char c :: nat) in
        (48 \<le> n \<and> n \<le> 57) \<or> (65 \<le> n \<and> n \<le> 90) \<or> n = 95 \<or> (97 \<le> n \<and> n \<le> 122)
        \<or> n = 170 \<or> n = 178 \<or> n = 179 \<or> n = 181 \<or> n = 185 \<or> n = 186
        \<or> n = 188 \<or> n = 189 \<or> n = 190
        \<or> (192 \<le> n \<and> n \<le> 214) \<or> (216 \<le> n \<and> n \<le> 246) \<or> 248 \<le> n)"

definition strip :: "string \<Rightarrow> string" where
  "strip s = rev (dropWhile is_space (rev (dropWhile is_space s)))"

definition startswith :: "string \<Rightarrow> string \<Rightarrow> bool" where
  "startswith s p \<longleftrightarrow> take (length p) s = p"

definition endswith :: "string \<Rightarrow> string \<Rightarrow> bool" where
  "endswith s p \<longleftrightarrow> length p \<le> length s \<and> drop (length s - length p) s = p"

text \<open>\<^verbatim>\<open>s.split(c)\<close> for a one-character separator: never empty, empty pieces kept.\<close>

fun split_on :: "char \<Rightarrow> string \<Rightarrow> string list" where
  "split_on c [] = [[]]"
| "split_on c (x # xs) =
     (if x = c then [] # split_on c xs
      else (case split_on c xs of [] \<Rightarrow> [[x]] | w # ws \<Rightarrow> (x # w) # ws))"

text \<open>\<^verbatim>\<open>s.split()\<close>: the maximal runs of characters that are not whitespace.\<close>

function split_ws :: "string \<Rightarrow> string list" where
  "split_ws s =
     (case dropWhile is_space s of
        [] \<Rightarrow> []
      | c # cs \<Rightarrow> (c # takeWhile (\<lambda>x. \<not> is_space x) cs)
                 # split_ws (dropWhile (\<lambda>x. \<not> is_space x) cs))"
  by pat_completeness auto
termination
proof (relation "measure length")
  show "wf (measure length)" by simp
next
  fix s :: string and c cs
  assume "dropWhile is_space s = c # cs"
  then have "length s \<ge> Suc (length cs)"
    by (metis length_Cons length_dropWhile_le)
  moreover have "length (dropWhile (\<lambda>x. \<not> is_space x) cs) \<le> length cs"
    by (rule length_dropWhile_le)
  ultimately show "(dropWhile (\<lambda>x. \<not> is_space x) cs, s) \<in> measure length"
    by simp
qed

declare split_ws.simps [simp del]

text \<open>\<^verbatim>\<open>sep.join(xs)\<close> for a one-character separator, and \<^verbatim>\<open>s.replace(a, b)\<close>
  and \<^verbatim>\<open>s.count(a)\<close> for single characters.\<close>

fun join :: "char \<Rightarrow> string list \<Rightarrow> string" where
  "join c [] = []"
| "join c [x] = x"
| "join c (x # y # ys) = x @ c # join c (y # ys)"

definition replace :: "char \<Rightarrow> char \<Rightarrow> string \<Rightarrow> string" where
  "replace a b s = map (\<lambda>c. if c = a then b else c) s"

definition count :: "char \<Rightarrow> string \<Rightarrow> nat" where
  "count a s = length (filter (\<lambda>c. c = a) s)"

text \<open>\<^verbatim>\<open>str(n)\<close> and \<^verbatim>\<open>'{:d}'.format(i)\<close>: decimal digits, a minus sign for
  negative numbers.\<close>

definition digit_char :: "int \<Rightarrow> char" where
  "digit_char d = char_of (48 + d)"

function str_digits :: "int \<Rightarrow> string" where
  "str_digits n =
     (if n < 10 then [digit_char n] else str_digits (n div 10) @ [digit_char (n mod 10)])"
  by pat_completeness auto
termination
  by (relation "measure nat") auto

declare str_digits.simps [simp del]

definition str_int :: "int \<Rightarrow> string" where
  "str_int i = (if i < 0 then CHR ''-'' # str_digits (- i) else str_digits i)"

section \<open>Python values, dictionaries and errors\<close>

text \<open>
  The module \<^verbatim>\<open>mesa_namelists.py\<close> reads Fortran namelists into ordered dictionaries
  and writes them back. A Python \<^verbatim>\<open>str\<close> is modelled as a \<^typ>\<open>string\<close> whose
  characters are the code points 0..255; an \<^verbatim>\<open>OrderedDict\<close> as an association list
  whose keys are distinct, updated in place by \<^const>\<open>AList.update\<close> (an existing key
  keeps its position, a new key goes to the end); every exception the code can raise as a
  value of \<open>error\<close>.
\<close>

datatype error =
    ValueError
  | IndexError
  | TypeError
  | NameError
  | KeyError
  | AttributeError
  | NotImplementedError
  | NoSingleValueFoundException string
  | VariableTypeNotUnderstood

text \<open>
  A Python \<^verbatim>\<open>float\<close> is an IEEE double: \<open>Finite neg m q\<close> is the number
  \<open>(-1)^neg * m * 2^q\<close> with \<open>m\<close> odd, or \<open>m = 0\<close> and \<open>q = 0\<close> for the two zeros.
\<close>

datatype pyfloat = Finite bool int int | Infinity bool | NaN

definition float_value :: "pyfloat \<Rightarrow> rat option" where
  "float_value f =
     (case f of
        Finite neg m q \<Rightarrow>
          Some ((if neg then - 1 else 1) * of_int m
                * (if 0 \<le> q then 2 ^ nat q else 1 / 2 ^ nat (- q)))
      | _ \<Rightarrow> None)"

text \<open>
  The values a group can hold: the five scalar types of \<^verbatim>\<open>_parse_value\<close>, \<^verbatim>\<open>None\<close>
  (the filler of \<^verbatim>\<open>[None]*num_entries\<close>), a Python list, and the dictionary
  \<^verbatim>\<open>{'_is_list': True, i: v, ...}\<close> that collects indexed assignments while a group is
  read. \<open>IndexDict kvs\<close> is that dictionary: the marker is its first key, \<open>kvs\<close> are
  the integer keys in insertion order.
\<close>

datatype pyval =
    Integer int
  | Real pyfloat
  | Complex pyfloat pyfloat
  | Boolean bool
  | Text string
  | PyNone
  | PyList "pyval list"
  | IndexDict "(int \<times> pyval) list"

type_synonym group = "(string \<times> pyval) list"
type_synonym document = "(string \<times> group) list"

section \<open>The built-in conversions \<^verbatim>\<open>int\<close> and \<^verbatim>\<open>float\<close>\<close>

text \<open>
  Both conversions first drop the whitespace around the text (here the characters tab to
  carriage return, space, and the two whitespace characters above 127), then check that
  every underscore stands between two digits and drop the underscores, then read the
  literal. \<open>None\<close> is \<^verbatim>\<open>ValueError\<close>.
\<close>

definition is_space_num :: "char \<Rightarrow> bool" where
  "is_space_num c \<longleftrightarrow> c \<in> set [CHR 0x09, CHR 0x0A, CHR 0x0B, CHR 0x0C, CHR 0x0D,
     CHR 0x20, CHR 0x85, CHR 0xA0]"

definition strip_num :: "string \<Rightarrow> string" where
  "strip_num s = rev (dropWhile is_space_num (rev (dropWhile is_space_num s)))"

fun drop_underscores :: "char \<Rightarrow> string \<Rightarrow> string option" where
  "drop_underscores prev [] = (if prev = CHR ''_'' then None else Some [])"
| "drop_underscores prev (c # cs) =
     (if c = CHR ''_'' then (if is_digit prev then drop_underscores c cs else None)
      else if prev = CHR ''_'' \<and> \<not> is_digit c then None
      else map_option (Cons c) (drop_underscores c cs))"

definition digit_val :: "char \<Rightarrow> int" where
  "digit_val c = of_char c - 48"

definition int_of_digits :: "string \<Rightarrow> int" where
  "int_of_digits ds = foldl (\<lambda>a c. 10 * a + digit_val c) 0 ds"

definition split_sign :: "string \<Rightarrow> bool \<times> string" where
  "split_sign s =
     (case s of
        [] \<Rightarrow> (False, [])
      | c # cs \<Rightarrow> if c = CHR ''-'' then (True, cs) else if c = CHR ''+'' then (False, cs)
                 else (False, s))"

definition py_int :: "string \<Rightarrow> int option" where
  "py_int s =
     (case drop_underscores (CHR 0x00) (strip_num s) of
        None \<Rightarrow> None
      | Some t \<Rightarrow>
          (let (neg, ds) = split_sign t in
             if ds \<noteq> [] \<and> list_all is_digit ds
             then Some (if neg then - int_of_digits ds else int_of_digits ds)
             else None))"

text \<open>
  Rounding to a double. \<open>bit_length n\<close> is the number of binary digits of \<open>n\<close>;
  \<open>round_half_even a b\<close> is the integer nearest to \<open>a / b\<close>, the even one of two;
  \<open>odd_part m q\<close> rewrites \<open>m * 2^q\<close> with an odd \<open>m\<close>. \<open>to_double neg num den\<close> is
  the double nearest to \<open>num / den\<close> for \<open>0 \<le> num\<close> and \<open>0 < den\<close> (53 significant bits, least exponent \<open>-1074\<close>, infinity
  from \<open>2^1024\<close> on), with the sign \<open>neg\<close>.
\<close>

function bit_length :: "int \<Rightarrow> int" where
  "bit_length n = (if n \<le> 0 then 0 else 1 + bit_length (n div 2))"
  by pat_completeness auto
termination
  by (relation "measure nat") auto

declare bit_length.simps [simp del]

definition round_half_even :: "int \<Rightarrow> int \<Rightarrow> int" where
  "round_half_even a b =
     (let k = a div b; r = a mod b in
        if 2 * r < b then k else if b < 2 * r then k + 1
        else if even k then k else k + 1)"

function odd_part :: "int \<Rightarrow> int \<Rightarrow> int \<times> int" where
  "odd_part m q =
     (if m \<le> 0 then (0, 0) else if even m then odd_part (m div 2) (q + 1) else (m, q))"
  by pat_completeness auto
termination
  by (relation "measure (\<lambda>(m, q). nat m)") auto

declare odd_part.simps [simp del]

definition to_double :: "bool \<Rightarrow> int \<Rightarrow> int \<Rightarrow> pyfloat" where
  "to_double neg num den =
     (if num = 0 then Finite neg 0 0
      else
        let e0 = bit_length num - bit_length den;
            e = (if den * 2 ^ nat e0 \<le> num * 2 ^ nat (- e0) then e0 else e0 - 1);
            q = max e (- 1022) - 52;
            m = round_half_even (num * 2 ^ nat (- q)) (den * 2 ^ nat q)
        in if 971 < q \<or> (q = 971 \<and> 2 ^ 53 \<le> m) then Infinity neg
           else (case odd_part m q of (m', q') \<Rightarrow> Finite neg m' q'))"

text \<open>
  The literals \<^verbatim>\<open>float\<close> accepts: an optional sign, then \<^verbatim>\<open>inf\<close>, \<^verbatim>\<open>infinity\<close> or
  \<^verbatim>\<open>nan\<close> in any case, or digits with an optional point and at least one digit,
  optionally followed by \<^verbatim>\<open>e\<close> or \<^verbatim>\<open>E\<close>, an optional sign and at least one digit.
\<close>

definition lower :: "string \<Rightarrow> string" where
  "lower s = map (\<lambda>c. if (65::nat) \<le> of_char c \<and> of_char c \<le> (90::nat)
                       then char_of (of_char c + (32::nat)) else c) s"

definition decimal_value :: "bool \<Rightarrow> string \<Rightarrow> int \<Rightarrow> pyfloat" where
  "decimal_value neg ds x =
     (if 0 \<le> x then to_double neg (int_of_digits ds * 10 ^ nat x) 1
      else to_double neg (int_of_digits ds) (10 ^ nat (- x)))"

definition float_literal :: "string \<Rightarrow> pyfloat option" where
  "float_literal t =
     (let (neg, r) = split_sign t in
        if lower r = ''inf'' \<or> lower r = ''infinity'' then Some (Infinity neg)
        else if lower r = ''nan'' then Some NaN
        else
          let ip = takeWhile is_digit r;
              r1 = dropWhile is_digit r;
              fp = (case r1 of [] \<Rightarrow> [] | c # cs \<Rightarrow>
                      if c = CHR ''.'' then takeWhile is_digit cs else []);
              r2 = (case r1 of [] \<Rightarrow> [] | c # cs \<Rightarrow>
                      if c = CHR ''.'' then dropWhile is_digit cs else r1)
          in if ip = [] \<and> fp = [] then None
             else (case r2 of
                     [] \<Rightarrow> Some (decimal_value neg (ip @ fp) (- int (length fp)))
                   | c # r3 \<Rightarrow>
                       if c = CHR ''e'' \<or> c = CHR ''E'' then
                         (let (eneg, ex) = split_sign r3 in
                            if ex \<noteq> [] \<and> list_all is_digit ex
                            then Some (decimal_value neg (ip @ fp)
                                   ((if eneg then - int_of_digits ex else int_of_digits ex)
                                    - int (length fp)))
                            else None)
                       else None))"

definition py_float :: "string \<Rightarrow> pyfloat option" where
  "py_float s =
     (case drop_underscores (CHR 0x00) (strip_num s) of
        None \<Rightarrow> None
      | Some t \<Rightarrow> float_literal t)"

section \<open>The regular expressions\<close>

text \<open>
  \<^verbatim>\<open>re.findall\<close> scans the text from left to right, takes at each position the first
  match the backtracking search finds, and goes on behind it, or one character further
  when there is none.

  \<^verbatim>\<open>group_re = &([^&]+)/\<close> (with \<^verbatim>\<open>DOTALL\<close>): a match starts at an \<^verbatim>\<open>&\<close>; the greedy
  class runs to the next \<^verbatim>\<open>&\<close> or to the end and gives characters back until a \<^verbatim>\<open>/\<close>
  follows, so the captured text ends before the last \<^verbatim>\<open>/\<close> of that run, and must not
  be empty. What is left of the run holds no \<^verbatim>\<open>&\<close>, so the next match starts at the next
  \<^verbatim>\<open>&\<close>: the runs are the pieces of \<^verbatim>\<open>text.split('&')\<close> but the first.
\<close>

definition capture_group :: "string \<Rightarrow> string list" where
  "capture_group run =
     (let upto = rev (dropWhile (\<lambda>c. c \<noteq> CHR ''/'') (rev run))
      in if 2 \<le> length upto then [butlast upto] else [])"

definition findall_group_re :: "string \<Rightarrow> string list" where
  "findall_group_re text = concat (map capture_group (tl (split_on (CHR ''&'') text)))"

text \<open>
  \<^verbatim>\<open>array_re = (\w+)\((\d+)\)\<close>: the longest run of word characters, an opening
  parenthesis, the longest run of digits, a closing parenthesis. A shorter run is followed
  by a word character or a digit, so giving characters back never helps.
\<close>

definition match_array_re :: "string \<Rightarrow> ((string \<times> string) \<times> string) option" where
  "match_array_re s =
     (let w = takeWhile is_word s in
        if w = [] then None
        else (case dropWhile is_word s of
                [] \<Rightarrow> None
              | c # r1 \<Rightarrow>
                  if c \<noteq> CHR ''('' then None
                  else (let d = takeWhile is_digit r1 in
                          if d = [] then None
                          else (case dropWhile is_digit r1 of
                                  [] \<Rightarrow> None
                                | c2 # r3 \<Rightarrow>
                                    if c2 = CHR '')'' then Some ((w, d), r3) else None))))"

function findall_array_re :: "string \<Rightarrow> (string \<times> string) list" where
  "findall_array_re s =
     (case s of
        [] \<Rightarrow> []
      | c # cs \<Rightarrow>
          (case match_array_re s of
             Some (m, rest) \<Rightarrow> m # findall_array_re rest
           | None \<Rightarrow> findall_array_re cs))"
  by pat_completeness auto
termination
proof -
  have shorter: "length rest < length s" if a: "match_array_re s = Some (m, rest)"
    for s m rest
  proof -
    from a obtain c r1 where r1: "dropWhile is_word s = c # r1"
      by (auto simp: match_array_re_def Let_def split: if_splits list.splits)
    with a obtain c2 where r3: "dropWhile is_digit r1 = c2 # rest"
      by (auto simp: match_array_re_def Let_def split: if_splits list.splits)
    have "length (dropWhile is_digit r1) \<le> length r1" by (rule length_dropWhile_le)
    moreover have "length (dropWhile is_word s) \<le> length s" by (rule length_dropWhile_le)
    ultimately show ?thesis using r1 r3 by simp
  qed
  show ?thesis
    by (relation "measure length") (auto dest: shorter)
qed

declare findall_array_re.simps [simp del]

text \<open>
  \<^verbatim>\<open>string_re = \'\s*\w[^']*\'\<close>: a quote, all the whitespace that follows, a word
  character, everything up to the next quote, and that quote. Whitespace is never a word
  character, so here too the greedy choice is the only one.
\<close>

definition match_string_re :: "string \<Rightarrow> (string \<times> string) option" where
  "match_string_re s =
     (case s of
        [] \<Rightarrow> None
      | q # r0 \<Rightarrow>
          if q \<noteq> CHR 0x27 then None
          else (case dropWhile is_space r0 of
                  [] \<Rightarrow> None
                | w # r2 \<Rightarrow>
                    if \<not> is_word w then None
                    else (case dropWhile (\<lambda>c. c \<noteq> CHR 0x27) r2 of
                            [] \<Rightarrow> None
                          | q2 # r4 \<Rightarrow> Some (take (length s - length r4) s, r4))))"

function findall_string_re :: "string \<Rightarrow> string list" where
  "findall_string_re s =
     (case s of
        [] \<Rightarrow> []
      | c # cs \<Rightarrow>
          (case match_string_re s of
             Some (m, rest) \<Rightarrow> m # findall_string_re rest
           | None \<Rightarrow> findall_string_re cs))"
  by pat_completeness auto
termination
proof -
  have shorter: "length rest < length s" if a: "match_string_re s = Some (m, rest)"
    for s m rest
  proof -
    from a obtain q r0 where s: "s = q # r0"
      by (cases s) (auto simp: match_string_re_def)
    with a obtain w r2 where r2: "dropWhile is_space r0 = w # r2"
      by (auto simp: match_string_re_def split: if_splits list.splits)
    with a s obtain q2 where r4: "dropWhile (\<lambda>c. c \<noteq> CHR 0x27) r2 = q2 # rest"
      by (auto simp: match_string_re_def split: if_splits list.splits)
    have "length (dropWhile (\<lambda>c. c \<noteq> CHR 0x27) r2) \<le> length r2"
      by (rule length_dropWhile_le)
    moreover have "length (dropWhile is_space r0) \<le> length r0" by (rule length_dropWhile_le)
    ultimately show ?thesis using s r2 r4 by simp
  qed
  show ?thesis
    by (relation "measure length") (auto dest: shorter)
qed

declare findall_string_re.simps [simp del]

text \<open>
  \<^verbatim>\<open>_complex_re = ^\((\d+.?\d*),(\d+.?\d*)\)$\<close>. Here the choices matter (the dot is
  any character but a line break, also a comma or a parenthesis), so each part returns
  all its ways to match, what it consumed and what is left, in the order the search tries
  them: more digits first, the optional character taken first. \<^verbatim>\<open>^\<close> holds at the start
  of the text only, \<^verbatim>\<open>$\<close> at its end or before a line break that ends it.
\<close>

definition some_digits :: "nat \<Rightarrow> string \<Rightarrow> (string \<times> string) list" where
  "some_digits least s =
     map (\<lambda>n. (take n s, drop n s)) (rev [least ..< Suc (length (takeWhile is_digit s))])"

definition optional_char :: "string \<Rightarrow> (string \<times> string) list" where
  "optional_char s =
     (case s of
        [] \<Rightarrow> [([], s)]
      | c # cs \<Rightarrow> if c = CHR 0x0A then [([], s)] else [([c], cs), ([], s)])"

definition real_part :: "string \<Rightarrow> (string \<times> string) list" where
  "real_part s =
     concat (map (\<lambda>(a, r1).
       concat (map (\<lambda>(b, r2).
         map (\<lambda>(c, r3). (a @ b @ c, r3)) (some_digits 0 r2))
       (optional_char r1)))
     (some_digits 1 s))"

definition complex_matches :: "string \<Rightarrow> (string \<times> string) list" where
  "complex_matches s =
     (case s of
        [] \<Rightarrow> []
      | p # r \<Rightarrow>
          if p \<noteq> CHR ''('' then []
          else concat (map (\<lambda>(a, r1).
                 (case r1 of
                    [] \<Rightarrow> []
                  | c # r2 \<Rightarrow>
                      if c \<noteq> CHR '','' then []
                      else concat (map (\<lambda>(b, r3).
                             if r3 = '')'' \<or> r3 = [CHR '')'', CHR 0x0A] then [(a, b)] else [])
                           (real_part r2))))
               (real_part r)))"

definition findall_complex_re :: "string \<Rightarrow> (string \<times> string) list" where
  "findall_complex_re s = (case complex_matches s of [] \<Rightarrow> [] | m # _ \<Rightarrow> [m])"

section \<open>Writing a namelist\<close>








section \<open>Reading a namelist\<close>

text \<open>
  \<^verbatim>\<open>Namelist._parse_value\<close>: the first reading of the text that succeeds. The innermost
  handler comes first here: \<open>complex_value\<close> is \<^verbatim>\<open>complex(float(a), float(b))\<close> on the
  two captured texts, where a failing \<^verbatim>\<open>float\<close> raises \<^verbatim>\<open>ValueError\<close> out of the
  handler; \<open>flag_or_string\<close> is the chain of tests for the booleans and the quoted strings.
\<close>

definition complex_value :: "string \<times> string \<Rightarrow> error + pyval" where
  "complex_value ab =
     (case ab of (a, b) \<Rightarrow>
        (case py_float a of
           None \<Rightarrow> Inl ValueError
         | Some re \<Rightarrow>
             (case py_float b of
                None \<Rightarrow> Inl ValueError
              | Some im \<Rightarrow> Inr (Complex re im))))"

definition flag_or_string :: "string \<Rightarrow> error + pyval" where
  "flag_or_string variable_value =
     (if variable_value = ''.true.'' \<or> variable_value = ''T'' then Inr (Boolean True)
      else if variable_value = ''.false.'' \<or> variable_value = ''F'' then Inr (Boolean False)
      else if startswith variable_value [CHR 0x27] \<and> endswith variable_value [CHR 0x27]
              \<and> count (CHR 0x27) variable_value = 2
           then Inr (Text (butlast (tl variable_value)))
      else if startswith variable_value [CHR 0x22] \<and> endswith variable_value [CHR 0x22]
              \<and> count (CHR 0x22) variable_value = 2
           then Inr (Text (butlast (tl variable_value)))
      else Inl (NoSingleValueFoundException variable_value))"

definition parse_value :: "string \<Rightarrow> error + pyval" where
  "parse_value variable_value =
     (case py_int variable_value of
        Some i \<Rightarrow> Inr (Integer i)
      | None \<Rightarrow>
          (case py_float (replace (CHR ''d'') (CHR ''E'') variable_value) of
             Some f \<Rightarrow> Inr (Real f)
           | None \<Rightarrow>
               (case findall_complex_re variable_value of
                  [ab] \<Rightarrow> complex_value ab
                | _ \<Rightarrow> flag_or_string variable_value)))"

text \<open>
  \<^verbatim>\<open>container[index] = value\<close> on what a group holds: the index dictionary takes any
  key, a list takes the indices within its length (negative ones count from the end), the
  scalars and \<^verbatim>\<open>None\<close> take none.
\<close>

definition set_item :: "pyval \<Rightarrow> int \<Rightarrow> pyval \<Rightarrow> error + pyval" where
  "set_item container i v =
     (case container of
        IndexDict kvs \<Rightarrow> Inr (IndexDict (AList.update i v kvs))
      | PyList xs \<Rightarrow>
          if - int (length xs) \<le> i \<and> i < int (length xs)
          then Inr (PyList (xs[nat (if i < 0 then i + int (length xs) else i) := v]))
          else Inl IndexError
      | _ \<Rightarrow> Inl TypeError)"

text \<open>The assignment of one parsed value: to the variable itself without an index, to a
  slot of its index dictionary (created when the name is new) with one.\<close>

definition assign :: "group \<Rightarrow> string \<Rightarrow> int option \<Rightarrow> pyval \<Rightarrow> error + group" where
  "assign grp variable_name variable_index parsed_value =
     (case variable_index of
        None \<Rightarrow> Inr (AList.update variable_name parsed_value grp)
      | Some i \<Rightarrow>
          (let grp' = (if variable_name \<notin> fst ` set grp
                       then AList.update variable_name (IndexDict []) grp else grp)
           in case map_of grp' variable_name of
                None \<Rightarrow> Inl KeyError
              | Some container \<Rightarrow>
                  (case set_item container i parsed_value of
                     Inl e \<Rightarrow> Inl e
                   | Inr container' \<Rightarrow> Inr (AList.update variable_name container' grp'))))"

definition inline_entries :: "string \<Rightarrow> string list" where
  "inline_entries variable_value =
     (if count (CHR 0x27) variable_value = 0 \<or> count (CHR 0x27) variable_value = 2 then
        (if count (CHR ''('') variable_value \<noteq> 0 then split_ws variable_value
         else split_ws (replace (CHR '','') (CHR '' '') variable_value))
      else map strip (findall_string_re variable_value))"

fun assign_entries :: "group \<Rightarrow> string \<Rightarrow> int \<Rightarrow> string list \<Rightarrow> error + group" where
  "assign_entries grp variable_name variable_index [] = Inr grp"
| "assign_entries grp variable_name variable_index (inline_value # rest) =
     (case parse_value inline_value of
        Inl e \<Rightarrow> Inl e
      | Inr parsed_value \<Rightarrow>
          (case assign grp variable_name (Some variable_index) parsed_value of
             Inl e \<Rightarrow> Inl e
           | Inr grp' \<Rightarrow> assign_entries grp' variable_name (variable_index + 1) rest))"

text \<open>
  The body of the second loop of \<^verbatim>\<open>Namelist.__init__\<close>, for one assembled line.
  \<^verbatim>\<open>k, v = line.split('=')\<close> raises \<^verbatim>\<open>ValueError\<close> unless there are exactly two pieces.
\<close>

definition clean_line :: "string \<Rightarrow> string" where
  "clean_line line =
     (let line1 = (if endswith line '','' then butlast line else line)
      in if CHR ''!'' \<in> set line1
         then (case split_on (CHR ''!'') line1 of [] \<Rightarrow> [] | p # _ \<Rightarrow> strip p)
         else line1)"

definition process_line :: "group \<Rightarrow> string \<Rightarrow> error + group" where
  "process_line grp line =
     (case split_on (CHR ''='') (clean_line line) of
        [k, v] \<Rightarrow>
          (let variable_value = strip v;
               variable_name_groups = findall_array_re k;
               variable_name = (case variable_name_groups of [(n, i)] \<Rightarrow> n | _ \<Rightarrow> strip k);
               variable_index = (case variable_name_groups of
                                   [(n, i)] \<Rightarrow> Some (int_of_digits i - 1) | _ \<Rightarrow> None)
           in case parse_value variable_value of
                Inr parsed_value \<Rightarrow> assign grp variable_name variable_index parsed_value
              | Inl (NoSingleValueFoundException _) \<Rightarrow>
                  assign_entries grp variable_name 0 (inline_entries variable_value)
              | Inl e \<Rightarrow> Inl e)
      | _ \<Rightarrow> Inl ValueError)"

fun process_lines :: "group \<Rightarrow> string list \<Rightarrow> error + group" where
  "process_lines grp [] = Inr grp"
| "process_lines grp (line # rest) =
     (case process_line grp line of
        Inl e \<Rightarrow> Inl e
      | Inr grp' \<Rightarrow> process_lines grp' rest)"

text \<open>
  The first loop: blank lines and comment lines are skipped, a line with exactly one
  \<^verbatim>\<open>=\<close> is kept, any other line is glued to the last kept line when that ends with a
  comma. \<^verbatim>\<open>block_lines[-1]\<close> on the empty list raises \<^verbatim>\<open>IndexError\<close>.
\<close>

fun assemble :: "string list \<Rightarrow> string list \<Rightarrow> error + string list" where
  "assemble block_lines [] = Inr block_lines"
| "assemble block_lines (raw # rest) =
     (let line = strip raw in
        if line = [] then assemble block_lines rest
        else if startswith line ''!'' then assemble block_lines rest
        else if length (split_on (CHR ''='') line) = 2 then assemble (block_lines @ [line]) rest
        else (case rev block_lines of
                [] \<Rightarrow> Inl IndexError
              | prev # earlier \<Rightarrow>
                  if endswith prev '','' then assemble (rev earlier @ [prev @ line]) rest
                  else Inl ValueError))"

text \<open>
  \<^verbatim>\<open>Namelist._check_lists\<close>. For an index dictionary the list starts as
  \<^verbatim>\<open>[None]*num_entries\<close> and is filled in insertion order. The message of the exception
  for an index that is too large formats the name \<^verbatim>\<open>variable\<close>, which is bound nowhere, so
  what is raised there is \<^verbatim>\<open>NameError\<close>.
\<close>

fun fill :: "int \<Rightarrow> pyval list \<Rightarrow> (int \<times> pyval) list \<Rightarrow> error + pyval list" where
  "fill num_entries variable_list [] = Inr variable_list"
| "fill num_entries variable_list ((i, v) # items) =
     (if num_entries \<le> i then Inl NameError
      else if i < - int (length variable_list) then Inl IndexError
      else fill num_entries
             (variable_list[nat (if i < 0 then i + int (length variable_list) else i) := v])
             items)"

definition make_list :: "(int \<times> pyval) list \<Rightarrow> error + pyval list" where
  "make_list variable_data =
     fill (int (length variable_data)) (replicate (length variable_data) PyNone) variable_data"

fun check_variables :: "group \<Rightarrow> (string \<times> pyval) list \<Rightarrow> error + group" where
  "check_variables grp [] = Inr grp"
| "check_variables grp ((variable_name, variable_values) # items) =
     (case variable_values of
        IndexDict variable_data \<Rightarrow>
          (case make_list variable_data of
             Inl e \<Rightarrow> Inl e
           | Inr variable_list \<Rightarrow>
               check_variables (AList.update variable_name (PyList variable_list) grp) items)
      | _ \<Rightarrow> check_variables grp items)"

fun check_groups :: "document \<Rightarrow> (string \<times> group) list \<Rightarrow> error + document" where
  "check_groups groups [] = Inr groups"
| "check_groups groups ((group_name, grp) # items) =
     (case check_variables grp grp of
        Inl e \<Rightarrow> Inl e
      | Inr grp' \<Rightarrow> check_groups (AList.update group_name grp' groups) items)"

definition check_lists :: "document \<Rightarrow> error + document" where
  "check_lists groups = check_groups groups groups"

text \<open>
  The loop over the group blocks, with the dictionaries \<^verbatim>\<open>self.groups\<close> and
  \<^verbatim>\<open>group_cnt\<close> as state.
\<close>

definition resolve_name ::
  "document \<Rightarrow> (string \<times> int) list \<Rightarrow> string \<Rightarrow> (string \<times> int) list \<times> string" where
  "resolve_name groups group_cnt group_name =
     (if group_name \<in> fst ` set groups then
        (let c = (case map_of group_cnt group_name of None \<Rightarrow> 0 | Some c \<Rightarrow> c + 1)
         in (AList.update group_name c group_cnt, group_name @ str_int c))
      else (group_cnt, group_name))"

definition read_block :: "string \<Rightarrow> error + string \<times> group" where
  "read_block group_block =
     (case split_on (CHR 0x0A) group_block of
        [] \<Rightarrow> Inl IndexError
      | first # block_lines_raw \<Rightarrow>
          (case assemble [] block_lines_raw of
             Inl e \<Rightarrow> Inl e
           | Inr block_lines \<Rightarrow>
               (case process_lines [] block_lines of
                  Inl e \<Rightarrow> Inl e
                | Inr grp \<Rightarrow> Inr (strip first, grp))))"

fun read_blocks ::
  "document \<Rightarrow> (string \<times> int) list \<Rightarrow> string list \<Rightarrow> error + document" where
  "read_blocks groups group_cnt [] = Inr groups"
| "read_blocks groups group_cnt (group_block # rest) =
     (case read_block group_block of
        Inl e \<Rightarrow> Inl e
      | Inr (group_name, grp) \<Rightarrow>
          (case resolve_name groups group_cnt group_name of
             (group_cnt', group_name') \<Rightarrow>
               (case check_lists (AList.update group_name' grp groups) of
                  Inl e \<Rightarrow> Inl e
                | Inr groups' \<Rightarrow> read_blocks groups' group_cnt' rest)))"

text \<open>
  \<^verbatim>\<open>Namelist.__init__(input_str)\<close>, as \<^verbatim>\<open>MESA\<close> calls it (\<^verbatim>\<open>name\<close> is the empty
  string): on the empty text it returns before \<^verbatim>\<open>self.groups\<close> exists, which is the
  result \<open>None\<close>.
\<close>

definition filtered_lines :: "string \<Rightarrow> string list" where
  "filtered_lines input_str =
     filter (\<lambda>line. \<not> startswith (strip line) ''!'') (split_on (CHR 0x0A) input_str)"

definition Namelist :: "string \<Rightarrow> error + document option" where
  "Namelist input_str =
     (if input_str = [] then Inr None
      else (case read_blocks [] []
                   (findall_group_re (join (CHR 0x0A) (filtered_lines input_str))) of
              Inl e \<Rightarrow> Inl e
            | Inr groups \<Rightarrow> Inr (Some groups)))"

section \<open>The keys of repeated groups, in the words of the specification\<close>

text \<open>
  The specification names the keys of the document from the group names in the order of
  the text: the first occurrence of a name keeps it, the 2nd, 3rd, ... occurrences get the
  name followed by \<^verbatim>\<open>0\<close>, \<^verbatim>\<open>1\<close>, ... \<open>expected_keys seen names\<close> are these keys for
  \<open>names\<close>, after the names \<open>seen\<close>. This definition is not taken from the code; it is
  what \<open>resolve_name\<close> is compared with.
\<close>

fun expected_keys :: "string list \<Rightarrow> string list \<Rightarrow> string list" where
  "expected_keys seen [] = []"
| "expected_keys seen (n # ns) =
     (if n \<in> set seen then n @ str_int (int (count_list seen n) - 1) else n)
     # expected_keys (seen @ [n]) ns"

section \<open>AttributeMapper\<close>

text \<open>
  \<^verbatim>\<open>__setattr__\<close> works on the dictionary the mapper wraps; the model returns the
  outcome together with the dictionary after the call.
\<close>

definition setattr :: "group \<Rightarrow> string \<Rightarrow> pyval \<Rightarrow> (error + unit) \<times> group" where
  "setattr data attr val =
     (if attr \<in> fst ` set data then (Inr (), AList.update attr val data)
      else (Inl NotImplementedError, data))"

definition getattr :: "group \<Rightarrow> string \<Rightarrow> error + pyval" where
  "getattr data attr =
     (case map_of data attr of Some found_attr \<Rightarrow> Inr found_attr | None \<Rightarrow> Inl AttributeError)"

section \<open>The complex literal, in the words of the specification\<close>

text \<open>
  The specification describes each side of a complex literal as digits with an optional
  fractional part. \<open>unsigned_real s\<close> says that \<open>s\<close> is such a text without a sign: one or
  more digits, optionally followed by a point and further digits. This definition is not
  taken from the code; the theorem on complex literals compares \<open>parse_value\<close> with it.
\<close>

definition unsigned_real :: "string \<Rightarrow> bool" where
  "unsigned_real s \<longleftrightarrow>
     (let i = takeWhile is_digit s; r = dropWhile is_digit s
      in i \<noteq> [] \<and> (r = [] \<or> (hd r = CHR ''.'' \<and> list_all is_digit (tl r))))"

section \<open>Groups that can be written and read back\<close>










section \<open>Properties\<close>

lemma update_present_keys:
  "k \<in> fst ` set al \<Longrightarrow> map fst (AList.update k v al) = map fst al"
  by (induction al) auto

text \<open>
  C10. Assigning through the mapper never changes the variable names of a group: for a name
  that is present the value is replaced in place (same names in the same order, the name now
  bound to the new value, every other name bound as before); for a name that is absent the
  call raises \<^verbatim>\<open>NotImplementedError\<close> and the group is the one it was.
\<close>

theorem setattr_keeps_names:
  "(attr \<in> fst ` set data \<longrightarrow>
      fst (setattr data attr val) = Inr ()
      \<and> map fst (snd (setattr data attr val)) = map fst data
      \<and> map_of (snd (setattr data attr val)) attr = Some val
      \<and> (\<forall>other. other \<noteq> attr \<longrightarrow>
            map_of (snd (setattr data attr val)) other = map_of data other))
   \<and> (attr \<notin> fst ` set data \<longrightarrow>
      setattr data attr val = (Inl NotImplementedError, data))"
  by (simp add: setattr_def update_present_keys update_conv')

theorem setattr_keeps_names_witness:
  "setattr [(''x'', Integer 1), (''y'', Boolean True)] ''x'' (Integer 7)
     = (Inr (), [(''x'', Integer 7), (''y'', Boolean True)])
   \<and> setattr [(''x'', Integer 1), (''y'', Boolean True)] ''z'' (Integer 7)
     = (Inl NotImplementedError, [(''x'', Integer 1), (''y'', Boolean True)])"
  using setattr_keeps_names [of "''x''" "[(''x'', Integer 1), (''y'', Boolean True)]" "Integer 7"]
    setattr_keeps_names [of "''z''" "[(''x'', Integer 1), (''y'', Boolean True)]" "Integer 7"]
  by (simp add: setattr_def)

subsection \<open>Building the list of an indexed variable\<close>

lemma fill_dense:
  "distinct (map fst kvs) \<Longrightarrow> \<forall>i \<in> fst ` set kvs. 0 \<le> i \<and> i < n \<Longrightarrow> int (length xs) = n \<Longrightarrow>
   \<exists>ys. fill n xs kvs = Inr ys \<and> length ys = length xs
        \<and> (\<forall>(i, v) \<in> set kvs. ys ! nat i = v)
        \<and> (\<forall>j < length xs. int j \<notin> fst ` set kvs \<longrightarrow> ys ! j = xs ! j)"
proof (induction kvs arbitrary: xs)
  case Nil
  then show ?case by simp
next
  case (Cons kv kvs)
  obtain i v where kv: "kv = (i, v)" by (cases kv)
  from Cons.prems kv have i: "0 \<le> i" "i < n" and notin: "i \<notin> fst ` set kvs"
    by auto
  let ?xs = "xs[nat i := v]"
  have len: "int (length ?xs) = n" using Cons.prems by simp
  from Cons.prems have d: "distinct (map fst kvs)" and r: "\<forall>i \<in> fst ` set kvs. 0 \<le> i \<and> i < n"
    by auto
  from Cons.IH [OF d r len] obtain ys where ys: "fill n ?xs kvs = Inr ys" "length ys = length ?xs"
    "\<forall>(i, v) \<in> set kvs. ys ! nat i = v"
    "\<forall>j < length ?xs. int j \<notin> fst ` set kvs \<longrightarrow> ys ! j = ?xs ! j"
    by blast
  have step: "fill n xs (kv # kvs) = fill n ?xs kvs"
    using i Cons.prems(3) kv by simp
  have "nat i < length xs" using i Cons.prems(3) by auto
  moreover have "int (nat i) \<notin> fst ` set kvs" using i notin by simp
  ultimately have "ys ! nat i = v" using ys(4) by simp
  moreover have "\<forall>j < length xs. int j \<notin> fst ` set (kv # kvs) \<longrightarrow> ys ! j = xs ! j"
  proof (intro allI impI)
    fix j assume j: "j < length xs" "int j \<notin> fst ` set (kv # kvs)"
    then have "int j \<noteq> i" "int j \<notin> fst ` set kvs" using kv by auto
    then have "j \<noteq> nat i" using i by auto
    with ys(4) j \<open>int j \<notin> fst ` set kvs\<close> show "ys ! j = xs ! j" by simp
  qed
  ultimately show ?case using ys step kv by auto
qed

lemma make_list_dense:
  assumes "distinct (map fst kvs)" and "fst ` set kvs = {0 ..< int (length kvs)}"
  shows "\<exists>ys. make_list kvs = Inr ys \<and> length ys = length kvs
              \<and> (\<forall>(i, v) \<in> set kvs. ys ! nat i = v)"
proof -
  have "\<forall>i \<in> fst ` set kvs. 0 \<le> i \<and> i < int (length kvs)" using assms(2) by auto
  from fill_dense [OF assms(1) this, of "replicate (length kvs) PyNone"]
  show ?thesis by (auto simp: make_list_def)
qed

text \<open>
  C2. Indexed assignments are ordered by their index, not by their place in the text. The
  written index minus one is the key of the value in the index dictionary; when the keys
  of the dictionary are exactly \<open>0, ..., n - 1\<close> the list built from it has length \<open>n\<close>
  and holds at each position the value stored under that key, whatever the insertion
  order. For the lines \<^verbatim>\<open>a(2)=2.0\<close> and \<^verbatim>\<open>a(1)=1.0\<close> the dictionary is
  \<open>{1: 2.0, 0: 1.0}\<close> and the variable \<open>a\<close> of the document is \<open>[1.0, 2.0]\<close>.
\<close>

theorem indexed_assignments_ordered_by_index:
  "(distinct (map fst kvs) \<and> fst ` set kvs = {0 ..< int (length kvs)} \<longrightarrow>
      (\<exists>ys. make_list kvs = Inr ys \<and> length ys = length kvs
            \<and> (\<forall>(i, v) \<in> set kvs. ys ! nat i = v)))
   \<and> process_lines [] [''a(2)=2.0'', ''a(1)=1.0'']
       = Inr [(''a'', IndexDict [(1, Real (Finite False 1 1)), (0, Real (Finite False 1 0))])]
   \<and> Namelist ''&g\<newline>a(2)=2.0\<newline>a(1)=1.0\<newline>/''
       = Inr (Some [(''g'', [(''a'', PyList [Real (Finite False 1 0), Real (Finite False 1 1)])])])
   \<and> float_value (Finite False 1 0) = Some 1 \<and> float_value (Finite False 1 1) = Some 2"
proof (intro conjI)
  show "distinct (map fst kvs) \<and> fst ` set kvs = {0 ..< int (length kvs)} \<longrightarrow>
      (\<exists>ys. make_list kvs = Inr ys \<and> length ys = length kvs
            \<and> (\<forall>(i, v) \<in> set kvs. ys ! nat i = v))"
    using make_list_dense by blast
  show "process_lines [] [''a(2)=2.0'', ''a(1)=1.0'']
       = Inr [(''a'', IndexDict [(1, Real (Finite False 1 1)), (0, Real (Finite False 1 0))])]"
    by code_simp
  show "Namelist ''&g\<newline>a(2)=2.0\<newline>a(1)=1.0\<newline>/''
       = Inr (Some [(''g'', [(''a'', PyList [Real (Finite False 1 0), Real (Finite False 1 1)])])])"
    by code_simp
  show "float_value (Finite False 1 0) = Some 1" by (simp add: float_value_def)
  show "float_value (Finite False 1 1) = Some 2" by (simp add: float_value_def)
qed

theorem indexed_assignments_ordered_by_index_witness:
  "make_list [(1, Real (Finite False 1 1)), (0, Real (Finite False 1 0))]
     = Inr [Real (Finite False 1 0), Real (Finite False 1 1)]"
proof -
  have h: "distinct (map fst [(1::int, Real (Finite False 1 1)), (0, Real (Finite False 1 0))])
          \<and> fst ` set [(1::int, Real (Finite False 1 1)), (0, Real (Finite False 1 0))]
              = {0 ..< int (length [(1::int, Real (Finite False 1 1)), (0, Real (Finite False 1 0))])}"
    by auto
  from indexed_assignments_ordered_by_index
         [of "[(1, Real (Finite False 1 1)), (0, Real (Finite False 1 0))]"] h
  obtain ys where ys: "make_list [(1, Real (Finite False 1 1)), (0, Real (Finite False 1 0))] = Inr ys"
    "length ys = 2" "ys ! nat 1 = Real (Finite False 1 1)" "ys ! nat 0 = Real (Finite False 1 0)"
    by auto
  then have "ys = [Real (Finite False 1 0), Real (Finite False 1 1)]"
    by (cases ys; cases "tl ys") auto
  with ys(1) show ?thesis by simp
qed

text \<open>
  C3. Indices that leave a gap: for the lines \<^verbatim>\<open>a(1)=1.0\<close> and \<^verbatim>\<open>a(3)=3.0\<close> the call
  fails and returns no document, but with \<^verbatim>\<open>NameError\<close>: the exception that was to name
  the variable is never built, because its message formats the unbound name
  \<^verbatim>\<open>variable\<close>. The same holds for every dictionary with a key at or above its size.
\<close>

theorem index_gap_raises_name_error:
  "Namelist ''&g\<newline>a(1)=1.0\<newline>a(3)=3.0\<newline>/'' = Inl NameError
   \<and> make_list [(0, v), (2, w)] = Inl NameError"
proof
  show "Namelist ''&g\<newline>a(1)=1.0\<newline>a(3)=3.0\<newline>/'' = Inl NameError"
    by code_simp
  show "make_list [(0, v), (2, w)] = Inl NameError"
    by (simp add: make_list_def)
qed

text \<open>
  C9. A list with a hole: the written index \<open>0\<close> becomes the key \<open>-1\<close>, which the size
  check lets through and Python's indexing takes as the last slot. For the lines
  \<^verbatim>\<open>a(0)=1\<close> and \<^verbatim>\<open>a(2)=2\<close> both values go to the slot 1 and the slot 0 keeps the
  filler \<^verbatim>\<open>None\<close>.
\<close>

theorem index_zero_leaves_hole:
  "Namelist ''&g\<newline>a(0)=1\<newline>a(2)=2\<newline>/''
     = Inr (Some [(''g'', [(''a'', PyList [PyNone, Integer 2])])])"
  by code_simp

lemma complex_value_not_real: "complex_value ab \<noteq> Inr (Real f)"
  by (simp add: complex_value_def split: prod.split option.split)

lemma flag_or_string_not_real: "flag_or_string s \<noteq> Inr (Real f)"
  by (simp add: flag_or_string_def)

text \<open>
  C5 as stated fails: an uppercase \<^verbatim>\<open>D\<close> is not rewritten, so \<^verbatim>\<open>1.5D2\<close> is not a
  scalar at all, and as the only value of a line it makes the whole call fail.
\<close>

theorem uppercase_exponent_counterexample:
  "parse_value ''1.5D2'' = Inl (NoSingleValueFoundException ''1.5D2'')
   \<and> parse_value ''1.5D2'' \<noteq> parse_value ''1.5d2''
   \<and> Namelist ''&g\<newline>x = 1.5D2\<newline>/'' = Inl (NoSingleValueFoundException ''1.5D2'')"
  by code_simp

text \<open>
  C5, amended. After the integer reading has failed, a text is a Real exactly when it reads
  as a double once every lowercase \<^verbatim>\<open>d\<close> is replaced by \<^verbatim>\<open>E\<close>; a text without a
  lowercase \<^verbatim>\<open>d\<close> is therefore a Real only if it is a double as it stands. \<^verbatim>\<open>1.5d2\<close>
  is the Real \<open>75 * 2^1 = 150\<close>.
\<close>

theorem lowercase_exponent_is_real:
  "(py_int s = None \<and> py_float (replace (CHR ''d'') (CHR ''E'') s) = Some f
      \<longrightarrow> parse_value s = Inr (Real f))
   \<and> (py_int s = None \<and> py_float (replace (CHR ''d'') (CHR ''E'') s) = None
      \<longrightarrow> parse_value s \<noteq> Inr (Real f))
   \<and> (CHR ''d'' \<notin> set s \<longrightarrow> replace (CHR ''d'') (CHR ''E'') s = s)
   \<and> parse_value ''1.5d2'' = Inr (Real (Finite False 75 1))
   \<and> float_value (Finite False 75 1) = Some 150"
proof (intro conjI)
  show "py_int s = None \<and> py_float (replace (CHR ''d'') (CHR ''E'') s) = Some f
      \<longrightarrow> parse_value s = Inr (Real f)"
    by (simp add: parse_value_def)
  show "py_int s = None \<and> py_float (replace (CHR ''d'') (CHR ''E'') s) = None
      \<longrightarrow> parse_value s \<noteq> Inr (Real f)"
    using complex_value_not_real [of _ f] flag_or_string_not_real [of s f]
    by (simp add: parse_value_def split: list.split)
  show "CHR ''d'' \<notin> set s \<longrightarrow> replace (CHR ''d'') (CHR ''E'') s = s"
    by (auto simp: replace_def intro: map_idI)
  show "parse_value ''1.5d2'' = Inr (Real (Finite False 75 1))"
    by code_simp
  show "float_value (Finite False 75 1) = Some 150"
    by (simp add: float_value_def)
qed

theorem lowercase_exponent_is_real_witness:
  "py_int ''2.5d-1'' = None
   \<and> py_float (replace (CHR ''d'') (CHR ''E'') ''2.5d-1'') = Some (Finite False 1 (- 2))
   \<and> parse_value ''2.5d-1'' = Inr (Real (Finite False 1 (- 2)))
   \<and> py_float (replace (CHR ''d'') (CHR ''E'') ''1.5D2'') = None
   \<and> parse_value ''1.5D2'' \<noteq> Inr (Real (Finite False 75 1))
   \<and> replace (CHR ''d'') (CHR ''E'') ''1.5D2'' = ''1.5D2''"
proof -
  have a: "py_int ''2.5d-1'' = None" by code_simp
  have b: "py_float (replace (CHR ''d'') (CHR ''E'') ''2.5d-1'') = Some (Finite False 1 (- 2))"
    by code_simp
  have c: "py_int ''1.5D2'' = None" by code_simp
  have d: "py_float (replace (CHR ''d'') (CHR ''E'') ''1.5D2'') = None" by code_simp
  have e: "CHR ''d'' \<notin> set ''1.5D2''" by simp
  show ?thesis
    using lowercase_exponent_is_real [of "''2.5d-1''" "Finite False 1 (- 2)"]
      lowercase_exponent_is_real [of "''1.5D2''" "Finite False 75 1"] a b c d e
    by blast
qed

subsection \<open>Characters and the numeric conversions\<close>

lemma digit_not_special:
  "is_digit c \<Longrightarrow> c \<noteq> CHR ''_'' \<and> c \<noteq> CHR ''.'' \<and> c \<noteq> CHR ''-'' \<and> c \<noteq> CHR ''+''
     \<and> c \<noteq> CHR ''d'' \<and> c \<noteq> CHR ''i'' \<and> c \<noteq> CHR ''n'' \<and> c \<noteq> CHR ''I'' \<and> c \<noteq> CHR ''N''
     \<and> c \<noteq> CHR ''('' \<and> c \<noteq> CHR '')'' \<and> c \<noteq> CHR '','' \<and> c \<noteq> CHR 0x0A"
  by (auto simp: is_digit_def)

lemma digits_not_special:
  "list_all is_digit ds \<Longrightarrow> CHR ''_'' \<notin> set ds \<and> CHR ''d'' \<notin> set ds \<and> CHR ''='' \<notin> set ds
     \<and> CHR ''!'' \<notin> set ds \<and> CHR ''&'' \<notin> set ds \<and> CHR 0x0A \<notin> set ds \<and> CHR 0x27 \<notin> set ds
     \<and> CHR ''('' \<notin> set ds \<and> CHR '','' \<notin> set ds"
  by (auto simp: list_all_iff is_digit_def)

lemma digit_not_space: "is_digit c \<Longrightarrow> \<not> is_space c \<and> \<not> is_space_num c"
  by (auto simp: is_digit_def is_space_def is_space_num_def)

lemma strip_num_id:
  "s \<noteq> [] \<Longrightarrow> \<not> is_space_num (hd s) \<Longrightarrow> \<not> is_space_num (last s) \<Longrightarrow> strip_num s = s"
proof -
  assume a: "s \<noteq> []" "\<not> is_space_num (hd s)" "\<not> is_space_num (last s)"
  then have "dropWhile is_space_num s = s" by (cases s) auto
  moreover have "dropWhile is_space_num (rev s) = rev s"
    using a by (cases "rev s") (auto simp: last_rev hd_rev)
  ultimately show ?thesis by (simp add: strip_num_def)
qed

lemma drop_underscores_id:
  "CHR ''_'' \<notin> set s \<Longrightarrow> prev \<noteq> CHR ''_'' \<Longrightarrow> drop_underscores prev s = Some s"
  by (induction s arbitrary: prev) auto

lemma takeWhile_digits_append:
  "list_all is_digit ds \<Longrightarrow> r = [] \<or> \<not> is_digit (hd r) \<Longrightarrow> takeWhile is_digit (ds @ r) = ds"
  by (induction ds) (auto simp: takeWhile_eq_Nil_iff neq_Nil_conv)

lemma dropWhile_digits_append:
  "list_all is_digit ds \<Longrightarrow> r = [] \<or> \<not> is_digit (hd r) \<Longrightarrow> dropWhile is_digit (ds @ r) = r"
  by (induction ds) (auto simp: dropWhile_eq_self_iff neq_Nil_conv)

lemma lower_hd_digit: "s \<noteq> [] \<Longrightarrow> is_digit (hd s) \<Longrightarrow> hd (lower s) = hd s"
  by (cases s) (auto simp: lower_def is_digit_def)

lemma float_literal_dotted:
  assumes i: "i \<noteq> []" "list_all is_digit i" and f: "list_all is_digit f"
  shows "float_literal (i @ CHR ''.'' # f) = Some (decimal_value False (i @ f) (- int (length f)))"
proof -
  let ?s = "i @ CHR ''.'' # f"
  have hd: "is_digit (hd ?s)" using i by (cases i) auto
  then have sign: "split_sign ?s = (False, ?s)"
    using i digit_not_special [of "hd ?s"] by (cases i) (auto simp: split_sign_def)
  have "hd (lower ?s) = hd ?s" using hd by (intro lower_hd_digit) auto
  then have nl: "lower ?s \<noteq> ''inf''" "lower ?s \<noteq> ''infinity''" "lower ?s \<noteq> ''nan''"
    using hd digit_not_special [of "hd ?s"] by auto
  have tw: "takeWhile is_digit ?s = i" "dropWhile is_digit ?s = CHR ''.'' # f"
    using takeWhile_digits_append [OF i(2), of "CHR ''.'' # f"]
      dropWhile_digits_append [OF i(2), of "CHR ''.'' # f"]
    by (auto simp: is_digit_def)
  have tf: "takeWhile is_digit f = f" "dropWhile is_digit f = []"
    using f by (auto simp: list_all_iff takeWhile_eq_all_conv)
  show ?thesis
    unfolding float_literal_def sign using i(1) by (simp add: Let_def nl tw tf)
qed

lemma py_float_dotted:
  assumes i: "i \<noteq> []" "list_all is_digit i" and f: "list_all is_digit f"
  shows "py_float (i @ CHR ''.'' # f) = Some (decimal_value False (i @ f) (- int (length f)))"
proof -
  let ?s = "i @ CHR ''.'' # f"
  have "\<not> is_space_num (hd ?s)" using i digit_not_space [of "hd i"] by (cases i) auto
  moreover have "\<not> is_space_num (last ?s)"
    using f digit_not_space [of "last f"]
    by (cases "f = []") (auto simp: is_space_num_def list_all_iff)
  ultimately have "strip_num ?s = ?s" by (intro strip_num_id) auto
  moreover have "CHR ''_'' \<notin> set ?s"
    using i f digits_not_special [of i] digits_not_special [of f] by simp
  then have "drop_underscores (CHR 0x00) ?s = Some ?s" by (intro drop_underscores_id) auto
  ultimately show ?thesis using float_literal_dotted [OF assms] by (simp add: py_float_def)
qed

lemma py_int_paren: "py_int (CHR ''('' # s) = None"
proof (cases "drop_underscores (CHR 0x00) (strip_num (CHR ''('' # s))")
  case None
  then show ?thesis by (simp add: py_int_def)
next
  case (Some t)
  have st: "strip_num (CHR ''('' # s) = CHR ''('' # rev (dropWhile is_space_num (rev s))"
    (is "_ = _ # ?u")
    by (simp add: strip_num_def is_space_num_def dropWhile_append3)
  with Some obtain t' where t: "t = CHR ''('' # t'"
    by (auto split: if_splits)
  then show ?thesis using Some by (simp add: py_int_def split_sign_def is_digit_def)
qed

lemma py_float_paren: "py_float (CHR ''('' # s) = None"
proof (cases "drop_underscores (CHR 0x00) (strip_num (CHR ''('' # s))")
  case None
  then show ?thesis by (simp add: py_float_def)
next
  case (Some t)
  have st: "strip_num (CHR ''('' # s) = CHR ''('' # rev (dropWhile is_space_num (rev s))"
    by (simp add: strip_num_def is_space_num_def dropWhile_append3)
  with Some obtain t' where t: "t = CHR ''('' # t'"
    by (auto split: if_splits)
  have "float_literal (CHR ''('' # t') = None"
    by (simp add: float_literal_def split_sign_def lower_def is_digit_def Let_def)
  then show ?thesis using Some t by (simp add: py_float_def)
qed

subsection \<open>Splitting a line\<close>

lemma split_on_not_Nil: "split_on c s \<noteq> []"
  by (induction s) (auto split: list.splits)


lemma split_on_absent: "c \<notin> set s \<Longrightarrow> split_on c s = [s]"
  by (induction s) auto

lemma split_on_append:
  "c \<notin> set a \<Longrightarrow> split_on c (a @ c # b) = a # split_on c b"
  by (induction a) auto

lemma takeWhile_upto: "c \<notin> set a \<Longrightarrow> takeWhile (\<lambda>x. x \<noteq> c) (a @ c # b) = a"
  by (induction a) auto

lemma dropWhile_upto: "c \<notin> set a \<Longrightarrow> dropWhile (\<lambda>x. x \<noteq> c) (a @ c # b) = c # b"
  by (induction a) auto

lemma split_on_once:
  "count c s = 1 \<Longrightarrow>
   split_on c s = [takeWhile (\<lambda>x. x \<noteq> c) s, tl (dropWhile (\<lambda>x. x \<noteq> c) s)]"
proof -
  assume one: "count c s = 1"
  have "c \<in> set s"
  proof (rule ccontr)
    assume "c \<notin> set s"
    then have "filter (\<lambda>x. x = c) s = []" by (auto simp: filter_empty_conv)
    with one show False by (simp add: count_def)
  qed
  then obtain a b where s: "s = a @ c # b" "c \<notin> set a"
    by (auto dest: split_list_first)
  with one have "c \<notin> set b" by (auto simp: count_def filter_empty_conv)
  then have "split_on c s = [a, b]" using s by (simp add: split_on_append split_on_absent)
  moreover have "takeWhile (\<lambda>x. x \<noteq> c) s = a" using s by (simp add: takeWhile_upto)
  moreover have "dropWhile (\<lambda>x. x \<noteq> c) s = c # b" using s by (simp add: dropWhile_upto)
  ultimately show ?thesis by simp
qed

subsection \<open>The complex literal\<close>

lemma some_digits_mem:
  "(p, r) \<in> set (some_digits least s) \<Longrightarrow> s = p @ r \<and> least \<le> length p \<and> list_all is_digit p"
proof -
  assume "(p, r) \<in> set (some_digits least s)"
  then obtain n where n: "least \<le> n" "n \<le> length (takeWhile is_digit s)"
    "p = take n s" "r = drop n s"
    by (auto simp: some_digits_def)
  have "length (takeWhile is_digit s) \<le> length s" by (rule length_takeWhile_le)
  with n have len: "length p = n" by simp
  have "take n s = take n (takeWhile is_digit s)"
    using n(2) by (metis append_eq_conv_conj takeWhile_dropWhile_id take_append
        diff_is_0_eq take_0 append_Nil2)
  then have "set p \<subseteq> set (takeWhile is_digit s)" using n(3) by (metis set_take_subset)
  then have "list_all is_digit p" by (auto simp: list_all_iff dest: set_takeWhileD)
  with n len show ?thesis by simp
qed

lemma some_digits_first:
  "list_all is_digit ds \<Longrightarrow> r = [] \<or> \<not> is_digit (hd r) \<Longrightarrow> least \<le> length ds \<Longrightarrow>
   \<exists>rest. some_digits least (ds @ r) = (ds, r) # rest"
proof -
  assume a: "list_all is_digit ds" "r = [] \<or> \<not> is_digit (hd r)" "least \<le> length ds"
  have "[least ..< Suc (length ds)] = [least ..< length ds] @ [length ds]"
    using a(3) by simp
  then show ?thesis
    using takeWhile_digits_append [OF a(1,2)] by (simp add: some_digits_def)
qed

lemma optional_char_mem: "(b, r) \<in> set (optional_char s) \<Longrightarrow> s = b @ r"
  by (cases s) (auto simp: optional_char_def split: if_splits)

lemma real_part_mem:
  "(x, r) \<in> set (real_part s) \<Longrightarrow> s = x @ r \<and> x \<noteq> [] \<and> is_digit (hd x)"
proof -
  assume "(x, r) \<in> set (real_part s)"
  then obtain a r1 b r2 c where m: "(a, r1) \<in> set (some_digits 1 s)"
    "(b, r2) \<in> set (optional_char r1)" "(c, r) \<in> set (some_digits 0 r2)" "x = a @ b @ c"
    by (auto simp: real_part_def)
  from some_digits_mem [OF m(1)] have a: "s = a @ r1" "a \<noteq> []" "list_all is_digit a" by auto
  from optional_char_mem [OF m(2)] have b: "r1 = b @ r2" .
  from some_digits_mem [OF m(3)] have c: "r2 = c @ r" by simp
  from a have "is_digit (hd a)" by (cases a) auto
  with a b c m(4) show ?thesis by (cases a) auto
qed

lemma real_part_dotted_first:
  assumes i: "i \<noteq> []" "list_all is_digit i" and f: "list_all is_digit f"
    and r: "r = [] \<or> \<not> is_digit (hd r)"
  shows "\<exists>rest. real_part (i @ CHR ''.'' # f @ r) = (i @ CHR ''.'' # f, r) # rest"
proof -
  have "1 \<le> length i" using i by (cases i) auto
  from some_digits_first [OF i(2) _ this, of "CHR ''.'' # f @ r"]
  obtain rest1 where s1: "some_digits 1 (i @ CHR ''.'' # f @ r) = (i, CHR ''.'' # f @ r) # rest1"
    by (auto simp: is_digit_def)
  have s2: "optional_char (CHR ''.'' # f @ r) = [([CHR ''.''], f @ r), ([], CHR ''.'' # f @ r)]"
    by (simp add: optional_char_def)
  from some_digits_first [OF f r, of 0]
  obtain rest3 where s3: "some_digits 0 (f @ r) = (f, r) # rest3" by auto
  show ?thesis by (simp add: real_part_def s1 s2 s3 del: One_nat_def)
qed

lemma complex_matches_mem:
  "(a, b) \<in> set (complex_matches s) \<Longrightarrow>
   \<exists>t. s = ''('' @ a @ '','' @ b @ '')'' @ t \<and> (t = [] \<or> t = [CHR 0x0A])
       \<and> a \<noteq> [] \<and> is_digit (hd a) \<and> b \<noteq> [] \<and> is_digit (hd b)"
proof -
  assume m: "(a, b) \<in> set (complex_matches s)"
  then obtain r where s: "s = CHR ''('' # r"
    by (cases s) (auto simp: complex_matches_def split: if_splits)
  with m obtain r2 b' r3 where p: "(a, CHR '','' # r2) \<in> set (real_part r)"
    "(b', r3) \<in> set (real_part r2)" "r3 = '')'' \<or> r3 = [CHR '')'', CHR 0x0A]" "b' = b"
    by (auto simp: complex_matches_def split: list.splits if_splits)
  from real_part_mem [OF p(1)] real_part_mem [OF p(2)] p(3,4) s
  show ?thesis by auto
qed

lemma findall_complex_re_mem:
  "findall_complex_re s = [ab] \<Longrightarrow> ab \<in> set (complex_matches s)"
  by (cases "complex_matches s") (auto simp: findall_complex_re_def)

lemma findall_complex_re_dotted:
  assumes "i1 \<noteq> []" "list_all is_digit i1" "list_all is_digit f1"
    and "i2 \<noteq> []" "list_all is_digit i2" "list_all is_digit f2"
  shows "findall_complex_re (''('' @ i1 @ ''.'' @ f1 @ '','' @ i2 @ ''.'' @ f2 @ '')'')
           = [(i1 @ ''.'' @ f1, i2 @ ''.'' @ f2)]"
proof -
  from real_part_dotted_first [OF assms(1-3), of "'','' @ i2 @ ''.'' @ f2 @ '')''"]
  obtain rest1 where r1: "real_part (i1 @ ''.'' @ f1 @ '','' @ i2 @ ''.'' @ f2 @ '')'')
      = (i1 @ ''.'' @ f1, '','' @ i2 @ ''.'' @ f2 @ '')'') # rest1"
    by (auto simp: is_digit_def)
  from real_part_dotted_first [OF assms(4-6), of "'')''"]
  obtain rest2 where r2: "real_part (i2 @ ''.'' @ f2 @ '')'') = (i2 @ ''.'' @ f2, '')'') # rest2"
    by (auto simp: is_digit_def)
  show ?thesis
    using r1 r2 by (simp add: findall_complex_re_def complex_matches_def)
qed

lemma complex_value_cases:
  "complex_value ab = Inr v \<Longrightarrow>
   \<exists>re im. v = Complex re im \<and> py_float (fst ab) = Some re \<and> py_float (snd ab) = Some im"
  by (auto simp: complex_value_def split: prod.splits option.splits)

lemma flag_or_string_not_complex: "flag_or_string s \<noteq> Inr (Complex re im)"
  by (simp add: flag_or_string_def)

lemma unsigned_real_cases:
  assumes "unsigned_real s"
  obtains (whole) "s \<noteq> []" "list_all is_digit s"
  | (dotted) i f where "s = i @ CHR ''.'' # f" "i \<noteq> []" "list_all is_digit i" "list_all is_digit f"
proof -
  define i where "i = takeWhile is_digit s"
  define r where "r = dropWhile is_digit s"
  have s: "s = i @ r" by (simp add: i_def r_def)
  have "set i \<subseteq> {c. is_digit c}" unfolding i_def by (auto dest: set_takeWhileD)
  then have d: "list_all is_digit i" by (auto simp: list_all_iff)
  have i: "i \<noteq> []" and r: "r = [] \<or> (hd r = CHR ''.'' \<and> list_all is_digit (tl r))"
    using assms by (simp_all add: unsigned_real_def Let_def i_def r_def)
  show thesis
  proof (cases "r = []")
    case True
    with s i d show ?thesis by (intro whole) simp_all
  next
    case False
    with r obtain f where "r = CHR ''.'' # f" "list_all is_digit f" by (cases r) auto
    with s i d show ?thesis by (intro dotted [of i f]) simp_all
  qed
qed

lemma unsigned_real_chars:
  "unsigned_real s \<Longrightarrow> c \<in> set s \<Longrightarrow> is_digit c \<or> c = CHR ''.''"
  by (erule unsigned_real_cases) (auto simp: list_all_iff)

lemma float_literal_digits:
  assumes i: "i \<noteq> []" "list_all is_digit i"
  shows "float_literal i = Some (decimal_value False i 0)"
proof -
  have hd: "is_digit (hd i)" using i by (cases i) auto
  then have sign: "split_sign i = (False, i)"
    using i digit_not_special [of "hd i"] by (cases i) (auto simp: split_sign_def)
  have "hd (lower i) = hd i" using hd i by (intro lower_hd_digit) auto
  then have nl: "lower i \<noteq> ''inf''" "lower i \<noteq> ''infinity''" "lower i \<noteq> ''nan''"
    using hd digit_not_special [of "hd i"] by auto
  have tw: "takeWhile is_digit i = i" "dropWhile is_digit i = []"
    using i by (auto simp: list_all_iff takeWhile_eq_all_conv)
  show ?thesis
    unfolding float_literal_def sign using i(1) by (simp add: Let_def nl tw)
qed

lemma py_float_digits:
  assumes i: "i \<noteq> []" "list_all is_digit i"
  shows "py_float i = Some (decimal_value False i 0)"
proof -
  have "\<not> is_space_num (hd i)" using i digit_not_space [of "hd i"] by (cases i) auto
  moreover have "\<not> is_space_num (last i)"
    using i digit_not_space [of "last i"] by (auto simp: list_all_iff)
  ultimately have "strip_num i = i" using i(1) by (intro strip_num_id) auto
  moreover have "CHR ''_'' \<notin> set i" using digits_not_special [OF i(2)] by simp
  then have "drop_underscores (CHR 0x00) i = Some i" by (intro drop_underscores_id) auto
  ultimately show ?thesis using float_literal_digits [OF assms] by (simp add: py_float_def)
qed

lemma py_float_unsigned_real: "unsigned_real s \<Longrightarrow> \<exists>x. py_float s = Some x"
  by (erule unsigned_real_cases) (auto simp: py_float_digits py_float_dotted)

lemma some_digits_intro:
  assumes "list_all is_digit ds" "least \<le> length ds"
  shows "(ds, r) \<in> set (some_digits least (ds @ r))"
proof -
  have "takeWhile is_digit (ds @ r) = ds @ takeWhile is_digit r"
    using assms(1) by (intro takeWhile_append2) (auto simp: list_all_iff)
  then have "length ds \<in> set [least ..< Suc (length (takeWhile is_digit (ds @ r)))]"
    using assms(2) by simp
  then have "(\<lambda>n. (take n (ds @ r), drop n (ds @ r))) (length ds)
               \<in> set (some_digits least (ds @ r))"
    unfolding some_digits_def set_map set_rev by (rule imageI)
  then show ?thesis by simp
qed

lemma optional_char_skip: "([], s) \<in> set (optional_char s)"
  by (cases s) (auto simp: optional_char_def)

lemma real_part_member:
  "(a, r1) \<in> set (some_digits 1 s) \<Longrightarrow> (b, r2) \<in> set (optional_char r1) \<Longrightarrow>
   (c, r3) \<in> set (some_digits 0 r2) \<Longrightarrow> (a @ b @ c, r3) \<in> set (real_part s)"
  unfolding real_part_def by fastforce

lemma complex_matches_member:
  "(a, CHR '','' # r2) \<in> set (real_part r) \<Longrightarrow> (b, '')'') \<in> set (real_part r2) \<Longrightarrow>
   (a, b) \<in> set (complex_matches (CHR ''('' # r))"
  unfolding complex_matches_def by fastforce

lemma real_part_intro:
  assumes "unsigned_real a"
  shows "(a, r) \<in> set (real_part (a @ r))"
  using assms
proof (cases rule: unsigned_real_cases)
  case whole
  then have "(a, r) \<in> set (some_digits 1 (a @ r))"
    by (intro some_digits_intro) (auto simp: Suc_le_eq)
  moreover have "([], r) \<in> set (optional_char r)" by (rule optional_char_skip)
  moreover have "([], r) \<in> set (some_digits 0 ([] @ r))" by (intro some_digits_intro) auto
  ultimately have "(a @ [] @ [], r) \<in> set (real_part (a @ r))"
    by (intro real_part_member [of a r _ "[]" r "[]" r]) simp_all
  then show ?thesis by simp
next
  case (dotted i f)
  have "(i, CHR ''.'' # f @ r) \<in> set (some_digits 1 (i @ CHR ''.'' # f @ r))"
    using dotted by (intro some_digits_intro) (auto simp: Suc_le_eq)
  moreover have "([CHR ''.''], f @ r) \<in> set (optional_char (CHR ''.'' # f @ r))"
    by (simp add: optional_char_def)
  moreover have "(f, r) \<in> set (some_digits 0 (f @ r))"
    using dotted by (intro some_digits_intro) auto
  ultimately have "(i @ [CHR ''.''] @ f, r) \<in> set (real_part (i @ CHR ''.'' # f @ r))"
    by (rule real_part_member)
  then show ?thesis using dotted(1) by simp
qed

lemma complex_matches_intro:
  assumes "unsigned_real a" "unsigned_real b"
  shows "(a, b) \<in> set (complex_matches (CHR ''('' # a @ CHR '','' # b @ '')''))"
proof -
  have "(a, CHR '','' # b @ '')'') \<in> set (real_part (a @ CHR '','' # b @ '')''))"
    using assms(1) by (rule real_part_intro)
  moreover have "(b, '')'') \<in> set (real_part (b @ '')''))"
    using assms(2) by (rule real_part_intro)
  ultimately show ?thesis by (rule complex_matches_member)
qed

lemma complex_matches_only:
  assumes a: "unsigned_real a" and b: "unsigned_real b"
    and m: "(a', b') \<in> set (complex_matches (CHR ''('' # a @ CHR '','' # b @ '')''))"
  shows "a' = a \<and> b' = b"
proof -
  have na: "CHR '','' \<notin> set a" "CHR '','' \<notin> set b"
    using unsigned_real_chars [OF a, of "CHR '',''"] unsigned_real_chars [OF b, of "CHR '',''"]
    by (auto simp: is_digit_def)
  from complex_matches_mem [OF m] obtain t where
    s: "a @ CHR '','' # b @ '')'' = a' @ CHR '','' # b' @ CHR '')'' # t"
    and t: "t = [] \<or> t = [CHR 0x0A]" by auto
  have "count (CHR '','') (a @ CHR '','' # b @ '')'') = 1"
    using na by (auto simp: count_def filter_empty_conv)
  then have "count (CHR '','') (a' @ CHR '','' # b' @ CHR '')'' # t) = 1" using s by simp
  then have "filter (\<lambda>c. c = CHR '','') a' = []" by (simp add: count_def)
  then have na': "CHR '','' \<notin> set a'" by (auto simp: filter_empty_conv)
  have "takeWhile (\<lambda>c. c \<noteq> CHR '','') (a @ CHR '','' # b @ '')'') = a"
    using na(1) by (rule takeWhile_upto)
  moreover have "takeWhile (\<lambda>c. c \<noteq> CHR '','') (a' @ CHR '','' # b' @ CHR '')'' # t) = a'"
    using na' by (rule takeWhile_upto)
  ultimately have aa: "a' = a" using s by simp
  with s have bb: "b @ '')'' = b' @ CHR '')'' # t" by simp
  have "t = []"
  proof (rule ccontr)
    assume "t \<noteq> []"
    with t have "t = [CHR 0x0A]" by simp
    with bb have "last (b @ '')'') = last (b' @ [CHR '')'', CHR 0x0A])" by simp
    then show False by simp
  qed
  with bb have "b' = b" by simp
  with aa show ?thesis by simp
qed

lemma findall_complex_re_unsigned:
  assumes "unsigned_real a" "unsigned_real b"
  shows "findall_complex_re (CHR ''('' # a @ CHR '','' # b @ '')'') = [(a, b)]"
proof -
  let ?s = "CHR ''('' # a @ CHR '','' # b @ '')''"
  from complex_matches_intro [OF assms] obtain m ms where ms: "complex_matches ?s = m # ms"
    by (cases "complex_matches ?s") auto
  then have "m \<in> set (complex_matches ?s)" by simp
  then have "m = (a, b)"
    using complex_matches_only [OF assms, of "fst m" "snd m"] by (simp add: prod_eq_iff)
  with ms show ?thesis by (simp add: findall_complex_re_def)
qed

lemma complex_value_not_flag:
  "complex_value ab \<noteq> Inr (Boolean f) \<and> complex_value ab \<noteq> Inr (Text t)"
  by (auto simp: complex_value_def split: prod.splits option.splits)

text \<open>
  C8 as stated fails: a sign is not part of the pattern. Neither \<^verbatim>\<open>(-1.0,2.0)\<close> nor
  \<^verbatim>\<open>(1.0,-2.0)\<close> nor \<^verbatim>\<open>(+1.0,2.0)\<close> is a complex literal, or any other scalar.
\<close>

theorem signed_complex_counterexample:
  "parse_value ''(-1.0,2.0)'' = Inl (NoSingleValueFoundException ''(-1.0,2.0)'')
   \<and> parse_value ''(1.0,-2.0)'' = Inl (NoSingleValueFoundException ''(1.0,-2.0)'')
   \<and> parse_value ''(+1.0,2.0)'' = Inl (NoSingleValueFoundException ''(+1.0,2.0)'')
   \<and> parse_value ''(1.0,2.0)'' = Inr (Complex (Finite False 1 0) (Finite False 1 1))"
  by code_simp

text \<open>
  C8, amended: the claim without the sign. When each side is one or more digits,
  optionally followed by a point and further digits (\<open>unsigned_real\<close>), the text
  \<^verbatim>\<open>(<side>,<side>)\<close> is read as the Complex of the two sides as \<^verbatim>\<open>float\<close> reads
  them. A text is read as a Complex only after the integer and the real reading have
  failed on it, and only when it is an opening parenthesis, two sides that each start with
  a digit (so neither has a sign) and are read by \<^verbatim>\<open>float\<close>, a comma between them, and
  a closing parenthesis (a final line break aside). The complex reading comes before the
  boolean and the quoted string: a text read as one of these has no complex match.
\<close>

theorem complex_literal_unsigned:
  "(unsigned_real a \<and> unsigned_real b \<longrightarrow>
      (\<exists>re im. py_float a = Some re \<and> py_float b = Some im
         \<and> parse_value (''('' @ a @ '','' @ b @ '')'') = Inr (Complex re im)))
   \<and> (parse_value s = Inr (Complex re im) \<longrightarrow>
        py_int s = None \<and> py_float (replace (CHR ''d'') (CHR ''E'') s) = None
        \<and> (\<exists>a b t. s = ''('' @ a @ '','' @ b @ '')'' @ t \<and> (t = [] \<or> t = [CHR 0x0A])
             \<and> a \<noteq> [] \<and> is_digit (hd a) \<and> b \<noteq> [] \<and> is_digit (hd b)
             \<and> py_float a = Some re \<and> py_float b = Some im))
   \<and> (parse_value s = Inr (Boolean f) \<or> parse_value s = Inr (Text t) \<longrightarrow>
        findall_complex_re s = [])"
proof -
  have pattern: "unsigned_real a \<and> unsigned_real b \<longrightarrow>
      (\<exists>re im. py_float a = Some re \<and> py_float b = Some im
         \<and> parse_value (''('' @ a @ '','' @ b @ '')'') = Inr (Complex re im))"
  proof (rule impI)
    assume u: "unsigned_real a \<and> unsigned_real b"
    let ?s = "CHR ''('' # a @ CHR '','' # b @ '')''"
    from u obtain re im where f: "py_float a = Some re" "py_float b = Some im"
      using py_float_unsigned_real [of a] py_float_unsigned_real [of b] by auto
    have "CHR ''d'' \<notin> set ?s"
      using u unsigned_real_chars [of a "CHR ''d''"] unsigned_real_chars [of b "CHR ''d''"]
      by (auto simp: is_digit_def)
    then have "replace (CHR ''d'') (CHR ''E'') ?s = ?s"
      unfolding replace_def by (intro map_idI) auto
    then have "py_float (replace (CHR ''d'') (CHR ''E'') ?s) = None"
      using py_float_paren [of "a @ CHR '','' # b @ '')''"] by simp
    moreover have "py_int ?s = None" by (rule py_int_paren)
    moreover have "findall_complex_re ?s = [(a, b)]"
      using u by (intro findall_complex_re_unsigned) auto
    ultimately have "parse_value ?s = Inr (Complex re im)"
      using f by (simp add: parse_value_def complex_value_def)
    with f show "\<exists>re im. py_float a = Some re \<and> py_float b = Some im
           \<and> parse_value (''('' @ a @ '','' @ b @ '')'') = Inr (Complex re im)"
      by simp
  qed
  have only: "parse_value s = Inr (Complex re im) \<longrightarrow>
        py_int s = None \<and> py_float (replace (CHR ''d'') (CHR ''E'') s) = None
        \<and> (\<exists>a b t. s = ''('' @ a @ '','' @ b @ '')'' @ t \<and> (t = [] \<or> t = [CHR 0x0A])
             \<and> a \<noteq> [] \<and> is_digit (hd a) \<and> b \<noteq> [] \<and> is_digit (hd b)
             \<and> py_float a = Some re \<and> py_float b = Some im)"
  proof (rule impI)
    assume c: "parse_value s = Inr (Complex re im)"
    then have n: "py_int s = None" "py_float (replace (CHR ''d'') (CHR ''E'') s) = None"
      by (auto simp: parse_value_def split: option.splits)
    with c have "\<exists>ab. findall_complex_re s = [ab] \<and> complex_value ab = Inr (Complex re im)"
      using flag_or_string_not_complex [of s re im]
      by (auto simp: parse_value_def split: list.splits)
    then obtain a b where ab: "findall_complex_re s = [(a, b)]"
      "complex_value (a, b) = Inr (Complex re im)" by auto
    from complex_value_cases [OF ab(2)] have "py_float a = Some re" "py_float b = Some im"
      by auto
    with complex_matches_mem [OF findall_complex_re_mem [OF ab(1)]]
    have "\<exists>a b t. s = ''('' @ a @ '','' @ b @ '')'' @ t \<and> (t = [] \<or> t = [CHR 0x0A])
             \<and> a \<noteq> [] \<and> is_digit (hd a) \<and> b \<noteq> [] \<and> is_digit (hd b)
             \<and> py_float a = Some re \<and> py_float b = Some im"
      by blast
    with n show "py_int s = None \<and> py_float (replace (CHR ''d'') (CHR ''E'') s) = None
          \<and> (\<exists>a b t. s = ''('' @ a @ '','' @ b @ '')'' @ t \<and> (t = [] \<or> t = [CHR 0x0A])
               \<and> a \<noteq> [] \<and> is_digit (hd a) \<and> b \<noteq> [] \<and> is_digit (hd b)
               \<and> py_float a = Some re \<and> py_float b = Some im)"
      by blast
  qed
  have before: "parse_value s = Inr (Boolean f) \<or> parse_value s = Inr (Text t) \<longrightarrow>
        findall_complex_re s = []"
  proof (rule impI)
    assume r: "parse_value s = Inr (Boolean f) \<or> parse_value s = Inr (Text t)"
    show "findall_complex_re s = []"
    proof (cases "complex_matches s")
      case Nil
      then show ?thesis by (simp add: findall_complex_re_def)
    next
      case (Cons m ms)
      then have "findall_complex_re s = [m]" by (simp add: findall_complex_re_def)
      then have "parse_value s = complex_value m \<or> (\<exists>i. parse_value s = Inr (Integer i))
          \<or> (\<exists>x. parse_value s = Inr (Real x))"
        by (auto simp: parse_value_def split: option.splits)
      with r complex_value_not_flag [of m f t] show ?thesis by auto
    qed
  qed
  show ?thesis by (rule conjI [OF pattern conjI [OF only before]])
qed

theorem complex_literal_unsigned_witness:
  "parse_value ''(1.0,2.0)'' = Inr (Complex (Finite False 1 0) (Finite False 1 1))
   \<and> parse_value ''(12,3.)'' = Inr (Complex (Finite False 3 2) (Finite False 3 0))
   \<and> py_int ''(12,3.)'' = None
   \<and> findall_complex_re ''.true.'' = []"
proof -
  have u: "unsigned_real ''1.0'' \<and> unsigned_real ''2.0''" by code_simp
  have v: "py_float ''1.0'' = Some (Finite False 1 0) \<and> py_float ''2.0'' = Some (Finite False 1 1)"
    by code_simp
  have c: "parse_value ''(12,3.)'' = Inr (Complex (Finite False 3 2) (Finite False 3 0))"
    by code_simp
  have b: "parse_value ''.true.'' = Inr (Boolean True)" by code_simp
  have "parse_value ''(1.0,2.0)'' = Inr (Complex (Finite False 1 0) (Finite False 1 1))"
    using complex_literal_unsigned [of "''1.0''" "''2.0''"] u v by simp
  moreover have "py_int ''(12,3.)'' = None"
    using complex_literal_unsigned [of _ _ "''(12,3.)''" "Finite False 3 2" "Finite False 3 0"] c
    by simp
  moreover have "findall_complex_re ''.true.'' = []"
    using complex_literal_unsigned [of _ _ "''.true.''" _ _ True] b by simp
  ultimately show ?thesis using c by simp
qed

subsection \<open>A quoted value that holds an equals sign\<close>

text \<open>
  C6. An \<^verbatim>\<open>=\<close> inside a quoted value: the line \<^verbatim>\<open>x = 'a=b'\<close> is not split on its first
  \<^verbatim>\<open>=\<close>. \<^verbatim>\<open>k, v = line.split('=')\<close> gets three pieces and raises, and the handler of the
  first loop (commented \<^verbatim>\<open>no = in current line\<close>) takes the line for the continuation of
  the line before. As the first line of a group it makes the call fail with
  \<^verbatim>\<open>IndexError\<close>; after a line without a trailing comma the call fails with
  \<^verbatim>\<open>ValueError\<close>; after a line with one it is glued to that line, whose split then
  raises \<^verbatim>\<open>ValueError\<close>; and after a line that ends with a comment ending in a comma it
  is glued into the comment and cut off with it, so the variable is lost without any
  error, where \<^verbatim>\<open>x = 'ab'\<close> in the same place is read.
\<close>

theorem equals_in_quoted_value_is_lost:
  "Namelist (''&g\<newline>x = '' @ [CHR 0x27] @ ''a=b'' @ [CHR 0x27] @ ''\<newline>/'') = Inl IndexError
   \<and> Namelist (''&g\<newline>y = 1\<newline>x = '' @ [CHR 0x27] @ ''a=b'' @ [CHR 0x27] @ ''\<newline>/'')
       = Inl ValueError
   \<and> assemble [] [''y = 1,'', ''x = '' @ [CHR 0x27] @ ''a=b'' @ [CHR 0x27]]
       = Inr [''y = 1,x = '' @ [CHR 0x27] @ ''a=b'' @ [CHR 0x27]]
   \<and> process_line [] (''y = 1,x = '' @ [CHR 0x27] @ ''a=b'' @ [CHR 0x27]) = Inl ValueError
   \<and> Namelist (''&g\<newline>y = 1 ! c,\<newline>x = '' @ [CHR 0x27] @ ''a=b'' @ [CHR 0x27] @ ''\<newline>/'')
       = Inr (Some [(''g'', [(''y'', Integer 1)])])
   \<and> Namelist (''&g\<newline>y = 1 ! c,\<newline>x = '' @ [CHR 0x27] @ ''ab'' @ [CHR 0x27] @ ''\<newline>/'')
       = Inr (Some [(''g'', [(''y'', Integer 1), (''x'', Text ''ab'')])])
   \<and> Namelist (''&g\<newline>x = '' @ [CHR 0x27] @ ''ab'' @ [CHR 0x27] @ ''\<newline>/'')
       = Inr (Some [(''g'', [(''x'', Text ''ab'')])])"
  by code_simp

subsection \<open>Groups keep distinct names\<close>

lemma update_absent: "k \<notin> fst ` set al \<Longrightarrow> AList.update k v al = al @ [(k, v)]"
  by (induction al) auto

lemma update_same:
  "distinct (map fst al) \<Longrightarrow> (k, v) \<in> set al \<Longrightarrow> AList.update k v al = al"
  by (induction al) (auto simp: rev_image_eqI)

lemma update_set:
  "distinct (map fst al) \<Longrightarrow> (k', v') \<in> set (AList.update k v al) \<Longrightarrow>
   (k' = k \<and> v' = v) \<or> (k' \<noteq> k \<and> (k', v') \<in> set al)"
  by (induction al) (auto simp: rev_image_eqI split: if_splits)

lemma assign_distinct:
  "assign grp n i v = Inr grp' \<Longrightarrow> distinct (map fst grp) \<Longrightarrow> distinct (map fst grp')"
  by (auto simp: assign_def Let_def distinct_update split: option.splits sum.splits if_splits)

lemma assign_entries_distinct:
  "assign_entries grp n i es = Inr grp' \<Longrightarrow> distinct (map fst grp) \<Longrightarrow> distinct (map fst grp')"
proof (induction es arbitrary: grp i)
  case Nil
  then show ?case by simp
next
  case (Cons e es)
  then show ?case
    by (auto split: sum.splits dest: assign_distinct)
qed

lemma process_line_distinct:
  "process_line grp line = Inr grp' \<Longrightarrow> distinct (map fst grp) \<Longrightarrow> distinct (map fst grp')"
proof -
  assume a: "process_line grp line = Inr grp'" and d: "distinct (map fst grp)"
  from a obtain k v where kv: "split_on (CHR ''='') (clean_line line) = [k, v]"
    by (auto simp: process_line_def split: list.splits)
  let ?n = "case findall_array_re k of [(n, i)] \<Rightarrow> n | _ \<Rightarrow> strip k"
  let ?i = "case findall_array_re k of [(n, i)] \<Rightarrow> Some (int_of_digits i - 1) | _ \<Rightarrow> None"
  from a kv have "(\<exists>pv. assign grp ?n ?i pv = Inr grp')
                  \<or> (\<exists>es. assign_entries grp ?n 0 es = Inr grp')"
    by (auto simp: process_line_def Let_def split: sum.splits error.splits)
  with d show ?thesis by (auto dest: assign_distinct assign_entries_distinct)
qed

lemma process_lines_distinct:
  "process_lines grp ls = Inr grp' \<Longrightarrow> distinct (map fst grp) \<Longrightarrow> distinct (map fst grp')"
proof (induction ls arbitrary: grp)
  case Nil
  then show ?case by simp
next
  case (Cons l ls)
  then show ?case by (auto split: sum.splits dest: process_line_distinct)
qed

lemma read_block_distinct: "read_block b = Inr (n, g) \<Longrightarrow> distinct (map fst g)"
  by (auto simp: read_block_def split: list.splits sum.splits dest: process_lines_distinct)

subsection \<open>Checked groups hold no index dictionary\<close>

lemma check_variables_settles:
  "check_variables grp items = Inr g' \<Longrightarrow> distinct (map fst grp) \<Longrightarrow>
   fst ` set items \<subseteq> fst ` set grp \<Longrightarrow>
   \<forall>(k, v) \<in> set grp. (\<exists>d. v = IndexDict d) \<longrightarrow> (k, v) \<in> set items \<Longrightarrow>
   (\<forall>(k, v) \<in> set g'. \<forall>d. v \<noteq> IndexDict d) \<and> map fst g' = map fst grp"
proof (induction items arbitrary: grp)
  case Nil
  then show ?case by auto
next
  case (Cons item items)
  obtain k v where item: "item = (k, v)" by (cases item)
  show ?case
  proof (cases "\<exists>d. v = IndexDict d")
    case False
    with Cons.prems item have c: "check_variables grp items = Inr g'"
      by (cases v) auto
    have s: "fst ` set items \<subseteq> fst ` set grp" using Cons.prems(3) by auto
    have "\<forall>(k, v) \<in> set grp. (\<exists>d. v = IndexDict d) \<longrightarrow> (k, v) \<in> set items"
      using Cons.prems(4) False item by auto
    from Cons.IH [OF c Cons.prems(2) s this] show ?thesis .
  next
    case True
    then obtain d where v: "v = IndexDict d" by blast
    with Cons.prems item obtain xs where xs: "make_list d = Inr xs"
      and c: "check_variables (AList.update k (PyList xs) grp) items = Inr g'"
      by (auto split: sum.splits)
    have kin: "k \<in> fst ` set grp" using Cons.prems(3) item by auto
    then have keys: "map fst (AList.update k (PyList xs) grp) = map fst grp"
      by (rule update_present_keys)
    have d': "distinct (map fst (AList.update k (PyList xs) grp))"
      using Cons.prems(2) by (rule distinct_update)
    have s: "fst ` set items \<subseteq> fst ` set (AList.update k (PyList xs) grp)"
    proof -
      have "fst ` set (AList.update k (PyList xs) grp) = fst ` set grp"
        using keys by (metis list.set_map)
      then show ?thesis using Cons.prems(3) by auto
    qed
    have inv: "\<forall>(k', v') \<in> set (AList.update k (PyList xs) grp).
                 (\<exists>d. v' = IndexDict d) \<longrightarrow> (k', v') \<in> set items"
    proof (clarify)
      fix k' d' assume m: "(k', IndexDict d') \<in> set (AList.update k (PyList xs) grp)"
      from update_set [OF Cons.prems(2) m]
      have "k' \<noteq> k" "(k', IndexDict d') \<in> set grp" by auto
      with Cons.prems(4) item show "(k', IndexDict d') \<in> set items" by auto
    qed
    from Cons.IH [OF c d' s inv] keys show ?thesis by simp
  qed
qed

lemma check_variables_settled:
  "\<forall>(k, v) \<in> set items. \<forall>d. v \<noteq> IndexDict d \<Longrightarrow> check_variables grp items = Inr grp"
proof (induction items)
  case Nil
  then show ?case by simp
next
  case (Cons item items)
  obtain k v where item: "item = (k, v)" by (cases item)
  with Cons show ?case by (cases v) auto
qed

lemma check_group_result:
  assumes "check_variables g g = Inr g'" and "distinct (map fst g)"
  shows "\<forall>(k, v) \<in> set g'. \<forall>d. v \<noteq> IndexDict d" and "check_variables g' g' = Inr g'"
proof -
  from check_variables_settles [OF assms(1,2)]
  show "\<forall>(k, v) \<in> set g'. \<forall>d. v \<noteq> IndexDict d" by auto
  then show "check_variables g' g' = Inr g'" by (rule check_variables_settled)
qed

lemma check_groups_settled:
  "distinct (map fst groups) \<Longrightarrow> set items \<subseteq> set groups \<Longrightarrow>
   \<forall>(k, g) \<in> set items. \<forall>(n, v) \<in> set g. \<forall>d. v \<noteq> IndexDict d \<Longrightarrow>
   check_groups groups items = Inr groups"
proof (induction items)
  case Nil
  then show ?case by simp
next
  case (Cons item items)
  obtain k g where item: "item = (k, g)" by (cases item)
  with Cons.prems have "\<forall>(n, v) \<in> set g. \<forall>d. v \<noteq> IndexDict d" by auto
  then have "check_variables g g = Inr g" by (rule check_variables_settled)
  moreover have "AList.update k g groups = groups"
    using Cons.prems item by (intro update_same) auto
  ultimately show ?case using Cons item by auto
qed

lemma check_groups_append:
  "check_groups groups (xs @ ys) =
     (case check_groups groups xs of Inl e \<Rightarrow> Inl e | Inr groups' \<Rightarrow> check_groups groups' ys)"
  by (induction xs arbitrary: groups) (auto split: sum.splits)

lemma check_lists_new_group:
  assumes d: "distinct (map fst groups)" and e: "e \<notin> fst ` set groups"
    and settled: "\<forall>(k, g) \<in> set groups. \<forall>(n, v) \<in> set g. \<forall>d. v \<noteq> IndexDict d"
    and g: "check_variables g g = Inr g'"
  shows "check_lists (AList.update e g groups) = Inr (groups @ [(e, g')])"
proof -
  have u: "AList.update e g groups = groups @ [(e, g)]" using e by (rule update_absent)
  have d2: "distinct (map fst (groups @ [(e, g)]))" using d e by (auto simp: rev_image_eqI)
  have "check_groups (groups @ [(e, g)]) groups = Inr (groups @ [(e, g)])"
    using d2 settled by (intro check_groups_settled) auto
  moreover have "AList.update e g' (groups @ [(e, g)]) = groups @ [(e, g')]"
    using e by (induction groups) auto
  ultimately show ?thesis
    using g by (simp add: check_lists_def u check_groups_append)
qed

subsection \<open>The keys of repeated groups\<close>

lemma count_list_member: "0 < count_list xs n \<longleftrightarrow> n \<in> set xs"
  by (induction xs) auto

lemma expected_keys_append:
  "expected_keys seen (xs @ ys) = expected_keys seen xs @ expected_keys (seen @ xs) ys"
  by (induction xs arbitrary: seen) auto

lemma first_occurrence_keeps_name:
  "n \<in> set xs \<Longrightarrow> n \<notin> set seen \<Longrightarrow> n \<in> set (expected_keys seen xs)"
proof -
  assume "n \<in> set xs" and s: "n \<notin> set seen"
  then obtain a b where xs: "xs = a @ n # b" "n \<notin> set a" by (auto dest: split_list_first)
  then have "expected_keys seen xs
      = expected_keys seen a @ n # expected_keys (seen @ a @ [n]) b"
    using s by (simp add: expected_keys_append)
  then show ?thesis by simp
qed

lemma read_blocks_keys:
  "list_all2 (\<lambda>b ng. read_block b = Inr ng) blocks named \<Longrightarrow>
   list_all2 (\<lambda>ng g'. check_variables (snd ng) (snd ng) = Inr g') named checked \<Longrightarrow>
   distinct (expected_keys [] (seen @ map fst named)) \<Longrightarrow>
   map fst groups = expected_keys [] seen \<Longrightarrow>
   \<forall>(k, g) \<in> set groups. \<forall>(n, v) \<in> set g. \<forall>d. v \<noteq> IndexDict d \<Longrightarrow>
   \<forall>n. map_of cnt n = (if 2 \<le> count_list seen n then Some (int (count_list seen n) - 2)
                        else None) \<Longrightarrow>
   read_blocks groups cnt blocks
     = Inr (groups @ zip (expected_keys seen (map fst named)) checked)"
proof (induction blocks arbitrary: named checked seen groups cnt)
  case Nil
  then show ?case by simp
next
  case (Cons b bs)
  from Cons.prems(1) obtain n g named' where named: "named = (n, g) # named'"
    and rb: "read_block b = Inr (n, g)"
    and rest1: "list_all2 (\<lambda>b ng. read_block b = Inr ng) bs named'"
    by (auto simp: list_all2_Cons1)
  from Cons.prems(2) named obtain g' checked' where checked: "checked = g' # checked'"
    and cg: "check_variables g g = Inr g'"
    and rest2: "list_all2 (\<lambda>ng g'. check_variables (snd ng) (snd ng) = Inr g') named' checked'"
    by (auto simp: list_all2_Cons1)
  let ?e = "if n \<in> set seen then n @ str_int (int (count_list seen n) - 1) else n"
  have ek: "expected_keys [] (seen @ [n]) = expected_keys [] seen @ [?e]"
    by (simp add: expected_keys_append)
  have dall: "distinct (expected_keys [] seen @ ?e # expected_keys (seen @ [n]) (map fst named'))"
    using Cons.prems(3) named by (simp add: expected_keys_append)
  have "set (map fst groups) = set (expected_keys [] seen)" using Cons.prems(4) by simp
  then have fg: "fst ` set groups = set (expected_keys [] seen)" by simp
  have enew: "?e \<notin> fst ` set groups" unfolding fg using dall by simp
  have dgroups: "distinct (map fst groups)" using dall Cons.prems(4) by simp
  have seen_iff: "n \<in> fst ` set groups \<longleftrightarrow> n \<in> set seen"
  proof
    assume "n \<in> fst ` set groups"
    show "n \<in> set seen"
    proof (rule ccontr)
      assume "n \<notin> set seen"
      then have "?e = n" by simp
      with enew \<open>n \<in> fst ` set groups\<close> show False by simp
    qed
  next
    assume "n \<in> set seen"
    then have "n \<in> set (expected_keys [] seen)" by (intro first_occurrence_keeps_name) auto
    then show "n \<in> fst ` set groups" using Cons.prems(4) by (metis list.set_map)
  qed
  let ?c = "case map_of cnt n of None \<Rightarrow> 0 | Some c \<Rightarrow> c + 1"
  let ?cnt = "if n \<in> set seen then AList.update n ?c cnt else cnt"
  have c_val: "n \<in> set seen \<Longrightarrow> ?c = int (count_list seen n) - 1"
  proof -
    assume "n \<in> set seen"
    then have "1 \<le> count_list seen n" using count_list_member [of seen n] by simp
    then show ?thesis using Cons.prems(6) by (auto simp: not_le)
  qed
  have rn: "resolve_name groups cnt n = (?cnt, ?e)"
    using seen_iff c_val by (auto simp: resolve_name_def Let_def)
  have dg: "distinct (map fst g)" using rb by (rule read_block_distinct)
  have cl: "check_lists (AList.update ?e g groups) = Inr (groups @ [(?e, g')])"
    using dgroups enew Cons.prems(5) cg by (rule check_lists_new_group)
  have step: "read_blocks groups cnt (b # bs) = read_blocks (groups @ [(?e, g')]) ?cnt bs"
    using rb rn cl by simp
  have keys': "map fst (groups @ [(?e, g')]) = expected_keys [] (seen @ [n])"
    using Cons.prems(4) ek by simp
  have settled': "\<forall>(k, g) \<in> set (groups @ [(?e, g')]). \<forall>(n, v) \<in> set g. \<forall>d. v \<noteq> IndexDict d"
    using Cons.prems(5) check_group_result(1) [OF cg dg] by auto
  have cnt': "\<forall>m. map_of ?cnt m
      = (if 2 \<le> count_list (seen @ [n]) m then Some (int (count_list (seen @ [n]) m) - 2)
         else None)"
  proof
    fix m
    show "map_of ?cnt m
      = (if 2 \<le> count_list (seen @ [n]) m then Some (int (count_list (seen @ [n]) m) - 2)
         else None)"
    proof (cases "n \<in> set seen")
      case True
      then have "1 \<le> count_list seen n" using count_list_member [of seen n] by simp
      then show ?thesis
        using True c_val Cons.prems(6) by (auto simp: update_conv')
    next
      case False
      then have "count_list seen n = 0" using count_list_member [of seen n] by simp
      then show ?thesis using False Cons.prems(6) by auto
    qed
  qed
  have d': "distinct (expected_keys [] ((seen @ [n]) @ map fst named'))"
    using Cons.prems(3) named by simp
  from Cons.IH [OF rest1 rest2 d' keys' settled' cnt']
  have "read_blocks (groups @ [(?e, g')]) ?cnt bs
     = Inr ((groups @ [(?e, g')]) @ zip (expected_keys (seen @ [n]) (map fst named')) checked')" .
  with step show ?case using named checked by simp
qed

text \<open>
  C4 as stated fails when a suffixed name meets the name of another block. A block is
  renamed when its name is already a key of the document, and is then stored under the new
  name whether or not that is a key too. For the blocks \<^verbatim>\<open>a0\<close>, \<^verbatim>\<open>a\<close>, \<^verbatim>\<open>a\<close> the
  second \<^verbatim>\<open>a\<close> is stored as \<^verbatim>\<open>a0\<close> over the first block: the document has two
  groups, the content of the first block is gone, and the second occurrence of \<^verbatim>\<open>a\<close>
  stands before the first.
\<close>

theorem group_name_collision_counterexample:
  "Namelist ''&a0\<newline>x = 1\<newline>/\<newline>&a\<newline>y = 2\<newline>/\<newline>&a\<newline>z = 3\<newline>/\<newline>''
     = Inr (Some [(''a0'', [(''z'', Integer 3)]), (''a'', [(''y'', Integer 2)])])
   \<and> expected_keys [] [''a0'', ''a'', ''a''] = [''a0'', ''a'', ''a0'']
   \<and> Namelist ''&a0\<newline>x = 1\<newline>/\<newline>&a\<newline>y = 2\<newline>/\<newline>&a\<newline>z = 3\<newline>/\<newline>''
     \<noteq> Inr (Some (zip (expected_keys [] [''a0'', ''a'', ''a''])
                     [[(''x'', Integer 1)], [(''y'', Integer 2)], [(''z'', Integer 3)]]))"
  by code_simp

text \<open>
  C4, amended. When the keys the specification names (the bare name for a first
  occurrence, the name followed by \<^verbatim>\<open>0\<close>, \<^verbatim>\<open>1\<close>, ... for the 2nd, 3rd, ...) are
  pairwise distinct, that is, when no suffixed name is also the key of another block, the
  document holds exactly these keys in the order of the blocks, each with the checked
  content of its own block. Two \<^verbatim>\<open>&controls\<close> blocks give the keys \<^verbatim>\<open>controls\<close> and
  \<^verbatim>\<open>controls0\<close>.
\<close>

theorem repeated_groups_get_counter_suffix:
  "(list_all2 (\<lambda>b ng. read_block b = Inr ng) blocks named
      \<and> list_all2 (\<lambda>ng g'. check_variables (snd ng) (snd ng) = Inr g') named checked
      \<and> distinct (expected_keys [] (map fst named))
      \<longrightarrow> read_blocks [] [] blocks = Inr (zip (expected_keys [] (map fst named)) checked))
   \<and> Namelist ''&controls\<newline>x = 1\<newline>/\<newline>&controls\<newline>y = .true.\<newline>/\<newline>''
       = Inr (Some [(''controls'', [(''x'', Integer 1)]), (''controls0'', [(''y'', Boolean True)])])"
proof
  show "list_all2 (\<lambda>b ng. read_block b = Inr ng) blocks named
      \<and> list_all2 (\<lambda>ng g'. check_variables (snd ng) (snd ng) = Inr g') named checked
      \<and> distinct (expected_keys [] (map fst named))
      \<longrightarrow> read_blocks [] [] blocks = Inr (zip (expected_keys [] (map fst named)) checked)"
    using read_blocks_keys [of blocks named checked "[]" "[]" "[]"] by simp
  show "Namelist ''&controls\<newline>x = 1\<newline>/\<newline>&controls\<newline>y = .true.\<newline>/\<newline>''
       = Inr (Some [(''controls'', [(''x'', Integer 1)]), (''controls0'', [(''y'', Boolean True)])])"
    by code_simp
qed

theorem repeated_groups_get_counter_suffix_witness:
  "read_blocks [] [] [''c\<newline>a(1) = 1\<newline>'', ''c\<newline>y = 2\<newline>'', ''c\<newline>''] =
     Inr [(''c'', [(''a'', PyList [Integer 1])]), (''c0'', [(''y'', Integer 2)]), (''c1'', [])]"
proof -
  have a: "list_all2 (\<lambda>b ng. read_block b = Inr ng)
             [''c\<newline>a(1) = 1\<newline>'', ''c\<newline>y = 2\<newline>'', ''c\<newline>'']
             [(''c'', [(''a'', IndexDict [(0, Integer 1)])]), (''c'', [(''y'', Integer 2)]), (''c'', [])]"
    by code_simp
  have b: "list_all2 (\<lambda>ng g'. check_variables (snd ng) (snd ng) = Inr g')
             [(''c'', [(''a'', IndexDict [(0, Integer 1)])]), (''c'', [(''y'', Integer 2)]), (''c'', [])]
             [[(''a'', PyList [Integer 1])], [(''y'', Integer 2)], []]"
    by code_simp
  have c: "expected_keys []
             (map fst [(''c'', [(''a'', IndexDict [(0, Integer 1)])]), (''c'', [(''y'', Integer 2)]),
                       (''c'', [])]) = [''c'', ''c0'', ''c1'']"
    by code_simp
  have d: "distinct [''c'', ''c0'', ''c1'']" by simp
  show ?thesis
    using repeated_groups_get_counter_suffix
      [of "[''c\<newline>a(1) = 1\<newline>'', ''c\<newline>y = 2\<newline>'', ''c\<newline>'']"
          "[(''c'', [(''a'', IndexDict [(0, Integer 1)])]), (''c'', [(''y'', Integer 2)]), (''c'', [])]"
          "[[(''a'', PyList [Integer 1])], [(''y'', Integer 2)], []]"] a b c d
    by simp
qed

subsection \<open>Comments\<close>

lemma split_on_append_any: "split_on c (a @ c # b) = split_on c a @ split_on c b"
proof (induction a)
  case Nil
  then show ?case by simp
next
  case (Cons x a)
  then show ?case
    using split_on_not_Nil [of c a] by (cases "split_on c a") auto
qed



lemma strip_dropWhile: "strip (dropWhile is_space s) = strip s"
  by (simp add: strip_def)

lemma set_strip: "set (strip s) \<subseteq> set s"
proof -
  have "set (strip s) \<subseteq> set (dropWhile is_space s)"
    using set_dropWhileD [of _ is_space "rev (dropWhile is_space s)"]
    by (auto simp: strip_def)
  then show ?thesis using set_dropWhileD [of _ is_space s] by auto
qed

lemma count_dropWhile: "\<not> P c \<Longrightarrow> count c (dropWhile P s) = count c s"
  by (induction s) (auto simp: count_def)

lemma count_rev: "count c (rev s) = count c s"
  by (simp add: count_def flip: rev_filter)

lemma count_strip: "\<not> is_space c \<Longrightarrow> count c (strip s) = count c s"
  by (simp add: strip_def count_rev count_dropWhile)





text \<open>
  C7. An inline comment is cut off only when the assembled line is processed in the
  second loop. It is still part of its line when the groups are cut out of the text and
  when the first loop tests the line with \<^verbatim>\<open>line.split('=')\<close>. The line
  \<^verbatim>\<open>x = 1 ! comment\<close> reads like \<^verbatim>\<open>x = 1\<close>, but \<^verbatim>\<open>x = 1 ! a=b\<close> does not: the \<^verbatim>\<open>=\<close>
  of the comment makes the line a continuation line and the call fails with
  \<^verbatim>\<open>IndexError\<close>. With an \<^verbatim>\<open>&\<close> in the comment a different group is read. And a
  comment that ends with a comma swallows the next line: \<^verbatim>\<open>x = 1 ! c,\<close> followed by
  \<^verbatim>\<open>3 4\<close> reads \<^verbatim>\<open>x = 1\<close>, where \<^verbatim>\<open>x = 1\<close> followed by \<^verbatim>\<open>3 4\<close> fails.
\<close>

theorem inline_comment_breaks_parsing:
  "Namelist ''&g\<newline>x = 1\<newline>/'' = Inr (Some [(''g'', [(''x'', Integer 1)])])
   \<and> Namelist ''&g\<newline>x = 1 ! comment\<newline>/'' = Inr (Some [(''g'', [(''x'', Integer 1)])])
   \<and> Namelist ''&g\<newline>x = 1 ! a=b\<newline>/'' = Inl IndexError
   \<and> Namelist ''&g\<newline>x = 1 ! a & b\<newline>/'' = Inr (Some [(''b'', [])])
   \<and> Namelist ''&g\<newline>x = 1 ! c,\<newline>3 4\<newline>/'' = Inr (Some [(''g'', [(''x'', Integer 1)])])
   \<and> Namelist ''&g\<newline>x = 1\<newline>3 4\<newline>/'' = Inl ValueError"
  by code_simp

subsection \<open>Integers written and read\<close>










subsection \<open>Texts that are no numbers\<close>




subsection \<open>Inline lists of integers and booleans\<close>


























subsection \<open>One written line read back\<close>



lemma strip_id: "s \<noteq> [] \<Longrightarrow> \<not> is_space (hd s) \<Longrightarrow> \<not> is_space (last s) \<Longrightarrow> strip s = s"
proof -
  assume a: "s \<noteq> []" "\<not> is_space (hd s)" "\<not> is_space (last s)"
  then have "dropWhile is_space s = s" by (cases s) auto
  moreover have "dropWhile is_space (rev s) = rev s"
    using a by (cases "rev s") (auto simp: last_rev hd_rev)
  ultimately show ?thesis by (simp add: strip_def)
qed








subsection \<open>A written group read back\<close>






subsection \<open>The written text read back\<close>








end
